theory Spec2Isabelle
  imports Main "HOL-Library.Word" "HOL-Library.Multiset" "HOL-Library.Sublist"
begin

unbundle bit_operations_syntax

section \<open>Data model of lspci.c\<close>

text \<open>
  The C types: \<open>byte\<close> is an unsigned 8-bit value, \<open>word\<close> an unsigned 16-bit value,
  \<open>unsigned int\<close> a 32-bit value whose arithmetic wraps around.
\<close>

type_synonym byte = "8 word"
type_synonym u16 = "16 word"
type_synonym u32 = "32 word"

text \<open>
  \<open>struct pci_dev\<close> belongs to libpci; lspci.c reads its fields \<open>domain\<close>, \<open>bus\<close>,
  \<open>dev\<close> and \<open>func\<close> only. The domain is never used in arithmetic and is kept as a
  natural number; bus, slot and function are bytes.
\<close>

record pci_dev =
  p_domain :: nat
  p_bus :: byte
  p_dev :: byte
  p_func :: byte

text \<open>
  \<open>struct device\<close>: the \<open>next\<close> pointer is the position in the list that holds the
  device; \<open>config\<close> is the fixed array \<open>byte config[256]\<close>.
\<close>

record device =
  dev :: pci_dev
  config_cnt :: u32
  config :: "byte list"

section \<open>Configuration space cache\<close>

text \<open>
  The hardware collaborator \<open>pci_read_block (p, pos, buf, len)\<close> either fails or
  delivers \<open>len\<close> bytes. It is a parameter of the model.
\<close>

type_synonym hardware = "pci_dev \<Rightarrow> nat \<Rightarrow> nat \<Rightarrow> byte list option"

text \<open>
  Every touch of \<open>d->config\<close> is recorded as the byte range it covers:
  \<open>Write pos len\<close> for the buffer \<open>d->config + pos\<close> of length \<open>len\<close> handed to
  \<open>pci_read_block\<close>, \<open>Read pos len\<close> for \<open>get_conf_byte\<close>, \<open>get_conf_word\<close>
  and \<open>get_conf_long\<close>.
\<close>

datatype access = Write nat nat | Read nat nat

fun in_bounds :: "access \<Rightarrow> bool" where
  "in_bounds (Write pos len) = (pos + len \<le> 256)"
| "in_bounds (Read pos len) = (pos + len \<le> 256)"

text \<open>
  Storing a block into the array. Bytes that would land behind the end of the
  256-byte array are not part of \<open>config\<close>; the \<open>Write\<close> access records them.
\<close>

definition store_block :: "byte list \<Rightarrow> nat \<Rightarrow> byte list \<Rightarrow> byte list" where
  "store_block cfg pos bs = take (length cfg) (take pos cfg @ bs @ drop (pos + length bs) cfg)"

text \<open>
  \<open>config_fetch\<close> (lspci.c): returns the C result, the device, and the list of
  requests \<open>(pos, len)\<close> sent to the hardware. The sum \<open>pos + len\<close> is 32-bit.
\<close>

definition config_fetch :: "hardware \<Rightarrow> device \<Rightarrow> u32 \<Rightarrow> u32 \<Rightarrow> bool \<times> device \<times> (nat \<times> nat) list" where
  "config_fetch hw d pos len =
     (if pos + len < config_cnt d then (True, d, [])
      else (case hw (dev d) (unat pos) (unat len) of
              None \<Rightarrow> (False, d, [(unat pos, unat len)])
            | Some bs \<Rightarrow> (True, d\<lparr>config := store_block (config d) (unat pos) bs\<rparr>,
                          [(unat pos, unat len)])))"

text \<open>
  The constants of libpci's header.h that lspci.c uses. The header file is not part of
  the sources, so the layout of the configuration header is a parameter \<open>L\<close>
  of every function that names one of these macros.
\<close>

record header_h =
  PCI_VENDOR_ID :: nat
  PCI_CLASS_DEVICE :: nat
  PCI_HEADER_TYPE :: nat
  PCI_HEADER_TYPE_BRIDGE :: byte
  PCI_HEADER_TYPE_CARDBUS :: byte
  PCI_CLASS_BRIDGE_PCI :: u16
  PCI_PRIMARY_BUS :: nat
  PCI_SECONDARY_BUS :: nat
  PCI_SUBORDINATE_BUS :: nat
  PCI_CB_PRIMARY_BUS :: nat
  PCI_CB_CARD_BUS :: nat
  PCI_CB_SUBORDINATE_BUS :: nat

text \<open>
  \<open>get_conf_byte\<close> and \<open>get_conf_word\<close> index the array without a check; the
  positions lspci.c passes for the header fields lie in the 64 bytes that
  \<open>scan_device\<close> has read.
\<close>

definition get_conf_byte :: "device \<Rightarrow> nat \<Rightarrow> byte" where
  "get_conf_byte d pos = config d ! pos"

definition get_conf_word :: "device \<Rightarrow> nat \<Rightarrow> u16" where
  "get_conf_word d pos = ucast (config d ! pos) OR push_bit 8 (ucast (config d ! (pos + 1)))"

text \<open>
  \<open>scan_device\<close>: \<open>NULL\<close> (here \<open>Inr None\<close>) when the filter rejects the
  function; otherwise the mandatory read of the 64-byte header, and of 64 more bytes
  for a cardbus bridge. A failed read is fatal: \<open>die\<close> ends the program, here
  \<open>Inl Die\<close>. \<open>bzero\<close> clears the array first.
\<close>

datatype fatal = Die

definition scan_device :: "header_h \<Rightarrow> (pci_dev \<Rightarrow> bool) \<Rightarrow> hardware \<Rightarrow> pci_dev \<Rightarrow> fatal + device option" where
  "scan_device L pci_filter_match hw p =
     (if \<not> pci_filter_match p then Inr None
      else
        (case hw p 0 64 of
           None \<Rightarrow> Inl Die
         | Some h \<Rightarrow>
             (let cfg = store_block (replicate 256 0) 0 h in
              if (cfg ! PCI_HEADER_TYPE L) AND 0x7f = PCI_HEADER_TYPE_CARDBUS L then
                (case hw p 64 64 of
                   None \<Rightarrow> Inl Die
                 | Some e \<Rightarrow> Inr (Some \<lparr>dev = p, config_cnt = 128, config = store_block cfg 64 e\<rparr>))
              else Inr (Some \<lparr>dev = p, config_cnt = 64, config = cfg\<rparr>))))"

text \<open>
  \<open>show_hex_dump\<close>: \<open>show_hex\<close> is the number of \<open>-x\<close> switches. The result is the
  list of accesses to \<open>d->config\<close> in program order: the fetches, then one
  \<open>get_conf_byte\<close> for every \<open>i < cnt\<close>.
\<close>

definition show_hex_dump :: "hardware \<Rightarrow> int \<Rightarrow> device \<Rightarrow> access list" where
  "show_hex_dump hw show_hex d =
     (let cnt = config_cnt d in
      if show_hex \<ge> 3 then
        (case config_fetch hw d cnt (256 - cnt) of
           (r1, d1, rq1) \<Rightarrow>
             if r1 then
               (if show_hex \<ge> 4 then
                  (case config_fetch hw d1 256 (4096 - 256) of
                     (r2, d2, rq2) \<Rightarrow>
                       map (\<lambda>(p, l). Write p l) (rq1 @ rq2) @
                       map (\<lambda>i. Read i 1) [0 ..< (if r2 then 4096 else 256)])
                else map (\<lambda>(p, l). Write p l) rq1 @ map (\<lambda>i. Read i 1) [0 ..< 256])
             else map (\<lambda>(p, l). Write p l) rq1 @ map (\<lambda>i. Read i 1) [0 ..< unat cnt])
      else map (\<lambda>i. Read i 1) [0 ..< unat cnt])"

section \<open>Bus mapping mode\<close>

text \<open>
  \<open>struct bus_bridge\<close> and \<open>struct bus_info\<close>. The \<open>next\<close> chain of bridges is
  a list whose head is \<open>bi->bridges\<close>. A pointer to a \<open>bus_bridge\<close> (\<open>via\<close>) is the
  bus that owns the node and the node's position in that bus's list.
\<close>

record bus_bridge =
  bb_this :: byte
  bb_dev :: byte
  bb_func :: byte
  bb_first :: byte
  bb_last :: byte
  bb_bug :: byte

record bus_info =
  bi_exists :: bool
  bi_guestbook :: bool
  bi_bridges :: "bus_bridge list"
  bi_via :: "(byte \<times> nat) option"

text \<open>What the mapper prints with \<open>!!!\<close>.\<close>

datatype diag = Invalid_primary_bus pci_dev | Invalid_bus_range pci_dev

text \<open>
  The state of bus mapping: the table \<open>bus_info[256]\<close>, indexed by a bus number,
  and three records of what has happened: the addresses handed to \<open>pci_get_dev\<close>,
  the \<open>!!!\<close> lines printed, and the buses on which \<open>do_map_bridges\<close> has executed
  \<open>bi->guestbook = 1\<close>, each list in program order. \<open>died\<close> is set when \<open>die\<close>
  has ended the program; nothing happens after it.
\<close>

record map_state =
  bus_info :: "byte \<Rightarrow> bus_info"
  probed :: "pci_dev list"
  diags :: "diag list"
  entered :: "byte list"
  died :: bool

text \<open>\<open>bzero (bus_info, sizeof (struct bus_info) * 256)\<close> in \<open>map_the_bus\<close>.\<close>

definition bzero_state :: map_state where
  "bzero_state =
     \<lparr>bus_info = (\<lambda>_. \<lparr>bi_exists = False, bi_guestbook = False, bi_bridges = [], bi_via = None\<rparr>),
      probed = [], diags = [], entered = [], died = False\<rparr>"

text \<open>
  The collaborators of the prober: libpci's raw register reads \<open>pci_read_word\<close> and
  \<open>pci_read_byte\<close>, the block read, \<open>pci_filter_match\<close> with the fields of the
  filter, and the content of a freshly allocated \<open>bus_bridge\<close>, whose field \<open>bug\<close>
  \<open>map_bridge\<close> does not initialise.
\<close>

record probe_env =
  pci_read_word :: "pci_dev \<Rightarrow> nat \<Rightarrow> u16"
  pci_read_byte :: "pci_dev \<Rightarrow> nat \<Rightarrow> byte"
  pci_read_block :: hardware
  filter_match :: "pci_dev \<Rightarrow> bool"
  filter_bus :: int
  filter_slot :: int
  filter_func :: int
  fresh_bug :: "pci_dev \<Rightarrow> byte"

text \<open>libpci's \<open>pci_get_dev\<close> stores the address it is given.\<close>

definition pci_get_dev :: "nat \<Rightarrow> byte \<Rightarrow> nat \<Rightarrow> nat \<Rightarrow> pci_dev" where
  "pci_get_dev domain bus dv func =
     \<lparr>p_domain = domain, p_bus = bus, p_dev = of_nat dv, p_func = of_nat func\<rparr>"

text \<open>
  \<open>map_bridge\<close>: the new node goes to the head of \<open>bi->bridges\<close>; a range with
  \<open>first > last\<close> is reported and clamped to \<open>last = first\<close>.
\<close>

definition map_bridge :: "probe_env \<Rightarrow> byte \<Rightarrow> device \<Rightarrow> nat \<Rightarrow> nat \<Rightarrow> nat \<Rightarrow> map_state \<Rightarrow> map_state" where
  "map_bridge env bus d np ns nl st =
     (let p = dev d;
          b = \<lparr>bb_this = get_conf_byte d np, bb_dev = p_dev p, bb_func = p_func p,
               bb_first = get_conf_byte d ns, bb_last = get_conf_byte d nl,
               bb_bug = fresh_bug env p\<rparr>;
          d1 = (if bb_this b \<noteq> p_bus p then [Invalid_primary_bus p] else []);
          d2 = (if bb_first b > bb_last b then [Invalid_bus_range p] else []);
          b' = (if bb_first b > bb_last b then b\<lparr>bb_last := bb_first b\<rparr> else b);
          bi = bus_info st bus
      in st\<lparr>bus_info := (bus_info st)(bus := bi\<lparr>bi_bridges := b' # bi_bridges bi\<rparr>),
            diags := diags st @ d1 @ d2\<rparr>)"

text \<open>
  The body of the \<open>func\<close> loop of \<open>do_map_bus\<close> for one function number: the new
  \<open>func_limit\<close> and the new state.
\<close>

definition probe_func :: "header_h \<Rightarrow> probe_env \<Rightarrow> byte \<Rightarrow> nat \<Rightarrow> nat \<Rightarrow> nat \<Rightarrow> map_state \<Rightarrow> nat \<times> map_state" where
  "probe_func L env bus dv func func_limit st =
     (if died st then (func_limit, st)
      else if filter_func env < 0 \<or> filter_func env = int func then
        (let p = pci_get_dev 0 bus dv func;
             st1 = st\<lparr>probed := probed st @ [p]\<rparr>;
             vendor = pci_read_word env p (PCI_VENDOR_ID L)
         in if vendor \<noteq> 0 \<and> vendor \<noteq> 0xffff then
              (let func_limit' = (if func = 0 \<and> pci_read_byte env p (PCI_HEADER_TYPE L) AND 0x80 \<noteq> 0 then 8 else func_limit);
                   st2 = st1\<lparr>bus_info := (bus_info st1)(bus := (bus_info st1 bus)\<lparr>bi_exists := True\<rparr>)\<rparr>
               in case scan_device L (filter_match env) (pci_read_block env) p of
                    Inl Die \<Rightarrow> (func_limit', st2\<lparr>died := True\<rparr>)
                  | Inr None \<Rightarrow> (func_limit', st2)
                  | Inr (Some d) \<Rightarrow>
                      (let ht = get_conf_byte d (PCI_HEADER_TYPE L) AND 0x7f in
                       if ht = PCI_HEADER_TYPE_BRIDGE L then
                         (func_limit', map_bridge env bus d (PCI_PRIMARY_BUS L) (PCI_SECONDARY_BUS L) (PCI_SUBORDINATE_BUS L) st2)
                       else if ht = PCI_HEADER_TYPE_CARDBUS L then
                         (func_limit', map_bridge env bus d (PCI_CB_PRIMARY_BUS L) (PCI_CB_CARD_BUS L) (PCI_CB_SUBORDINATE_BUS L) st2)
                       else (func_limit', st2)))
            else (func_limit, st1))
      else (func_limit, st))"

lemma probe_func_limit:
  "fst (probe_func L env bus dv func func_limit st) = func_limit \<or>
   fst (probe_func L env bus dv func func_limit st) = 8"
  by (simp add: probe_func_def Let_def split: sum.split option.split fatal.split)

text \<open>
  \<open>for (func = 0; func < func_limit; func++)\<close>: the bound is re-read in every
  round, and the body may raise it to 8.
\<close>

function func_loop :: "header_h \<Rightarrow> probe_env \<Rightarrow> byte \<Rightarrow> nat \<Rightarrow> nat \<Rightarrow> nat \<Rightarrow> map_state \<Rightarrow> map_state" where
  "func_loop L env bus dv func func_limit st =
     (if func < func_limit then
        (case probe_func L env bus dv func func_limit st of
           (func_limit', st') \<Rightarrow> func_loop L env bus dv (Suc func) func_limit' st')
      else st)"
  by pat_completeness auto
termination
  apply (relation "measure (\<lambda>(L, env, bus, dv, func, func_limit, st). max 8 func_limit - func)")
   apply simp
  apply (auto dest: sym)
  subgoal for L env bus dv func func_limit st a b
    using probe_func_limit [of L env bus dv func func_limit st] by (auto simp: case_prod_unfold)
  done

text \<open>\<open>do_map_bus\<close>: slots 0 to 31, each with \<open>func_limit = 1\<close> at the start.\<close>

fun dev_loop :: "header_h \<Rightarrow> probe_env \<Rightarrow> byte \<Rightarrow> nat list \<Rightarrow> map_state \<Rightarrow> map_state" where
  "dev_loop L env bus [] st = st"
| "dev_loop L env bus (dv # dvs) st =
     dev_loop L env bus dvs
       (if filter_slot env < 0 \<or> filter_slot env = int dv then func_loop L env bus dv 0 1 st else st)"

definition do_map_bus :: "header_h \<Rightarrow> probe_env \<Rightarrow> byte \<Rightarrow> map_state \<Rightarrow> map_state" where
  "do_map_bus L env bus st = dev_loop L env bus [0 ..< 32] st"

fun bus_loop :: "header_h \<Rightarrow> probe_env \<Rightarrow> nat list \<Rightarrow> map_state \<Rightarrow> map_state" where
  "bus_loop L env [] st = st"
| "bus_loop L env (bus # buses) st = bus_loop L env buses (do_map_bus L env (of_nat bus) st)"

text \<open>
  The probing half of \<open>map_the_bus\<close>. A bus number given with \<open>-s\<close> is below 256
  (\<open>bus_info\<close> has 256 entries).
\<close>

definition map_the_bus_probe :: "header_h \<Rightarrow> probe_env \<Rightarrow> map_state" where
  "map_the_bus_probe L env =
     (if filter_bus env \<ge> 0 then do_map_bus L env (word_of_int (filter_bus env)) bzero_state
      else bus_loop L env [0 ..< 256] bzero_state)"

subsection \<open>Validation of the bridge claims\<close>

definition set_bug :: "map_state \<Rightarrow> byte \<Rightarrow> nat \<Rightarrow> byte \<Rightarrow> map_state" where
  "set_bug st bus j v =
     (let bi = bus_info st bus
      in st\<lparr>bus_info := (bus_info st)(bus := bi\<lparr>bi_bridges := (bi_bridges bi)[j := (bi_bridges bi ! j)\<lparr>bb_bug := v\<rparr>]\<rparr>)\<rparr>)"

definition set_via :: "map_state \<Rightarrow> byte \<Rightarrow> byte \<times> nat \<Rightarrow> map_state" where
  "set_via st bus b = st\<lparr>bus_info := (bus_info st)(bus := (bus_info st bus)\<lparr>bi_via := Some b\<rparr>)\<rparr>"

definition sign_guestbook :: "map_state \<Rightarrow> byte \<Rightarrow> map_state" where
  "sign_guestbook st bus =
     st\<lparr>bus_info := (bus_info st)(bus := (bus_info st bus)\<lparr>bi_guestbook := True\<rparr>),
        entered := entered st @ [bus]\<rparr>"

text \<open>
  The body of the loop of \<open>do_map_bridges\<close> for the claim \<open>b\<close>, the \<open>j\<close>-th node of
  the list of \<open>bus\<close>; \<open>call\<close> is the recursive call.
\<close>

definition visit_claim :: "(map_state \<Rightarrow> byte \<Rightarrow> int \<Rightarrow> int \<Rightarrow> map_state option) \<Rightarrow> byte \<Rightarrow> int \<Rightarrow> int \<Rightarrow> nat \<Rightarrow> map_state \<Rightarrow> map_state option" where
  "visit_claim call bus mn mx j st =
     (let b = bi_bridges (bus_info st bus) ! j in
      if bi_guestbook (bus_info st (bb_first b)) then Some (set_bug st bus j 1)
      else if uint (bb_first b) < mn \<or> uint (bb_last b) > mx then Some (set_bug st bus j 2)
      else call (set_via st (bb_first b) (bus, j)) (bb_first b) (uint (bb_first b)) (uint (bb_last b)))"

fun claims_loop :: "(map_state \<Rightarrow> byte \<Rightarrow> int \<Rightarrow> int \<Rightarrow> map_state option) \<Rightarrow> byte \<Rightarrow> int \<Rightarrow> int \<Rightarrow> nat list \<Rightarrow> map_state \<Rightarrow> map_state option" where
  "claims_loop call bus mn mx [] st = Some st"
| "claims_loop call bus mn mx (j # js) st =
     (case visit_claim call bus mn mx j st of
        None \<Rightarrow> None
      | Some st' \<Rightarrow> claims_loop call bus mn mx js st')"

text \<open>
  \<open>do_map_bridges\<close>. The recursion of the C function is bounded here by a depth
  \<open>n\<close>: \<open>None\<close> means that the depth did not suffice. The list of claims of a bus
  is never relinked during validation, so the loop runs over its positions.
\<close>

primrec do_map_bridges :: "nat \<Rightarrow> map_state \<Rightarrow> byte \<Rightarrow> int \<Rightarrow> int \<Rightarrow> map_state option" where
  "do_map_bridges 0 = (\<lambda>st bus mn mx. None)"
| "do_map_bridges (Suc n) = (\<lambda>st bus mn mx.
     claims_loop (do_map_bridges n) bus mn mx
       [0 ..< length (bi_bridges (bus_info st bus))] (sign_guestbook st bus))"

text \<open>The first loop of \<open>map_bridges\<close>, over the bus numbers 0 to 255.\<close>

fun map_bridges_loop :: "nat \<Rightarrow> nat list \<Rightarrow> map_state \<Rightarrow> map_state option" where
  "map_bridges_loop n [] st = Some st"
| "map_bridges_loop n (i # is) st =
     (if bi_exists (bus_info st (of_nat i)) \<and> \<not> bi_guestbook (bus_info st (of_nat i)) then
        (case do_map_bridges n st (of_nat i) 0 255 of
           None \<Rightarrow> None
         | Some st' \<Rightarrow> map_bridges_loop n is st')
      else map_bridges_loop n is st)"

definition map_bridges :: "nat \<Rightarrow> map_state \<Rightarrow> map_state option" where
  "map_bridges n st = map_bridges_loop n [0 ..< 256] st"

text \<open>
  \<open>map_the_bus\<close>: the probing, then the validation; when \<open>die\<close> has ended the
  program during the probing, nothing follows.
\<close>

definition map_the_bus :: "nat \<Rightarrow> header_h \<Rightarrow> probe_env \<Rightarrow> map_state option" where
  "map_the_bus n L env =
     (let st = map_the_bus_probe L env in if died st then Some st else map_bridges n st)"

section \<open>Tree output: the passive builder\<close>

text \<open>
  \<open>struct bus\<close> and \<open>struct bridge\<close>. The devices of a bus (\<open>first_dev\<close>, linked by
  \<open>next\<close>, \<open>last_dev\<close> at the tail) and the buses of a bridge (\<open>first_bus\<close>, linked
  by \<open>sibling\<close>) are lists. The bridges lie in the single-linked \<open>chain\<close> that starts
  at \<open>host_bridge\<close>; a pointer to a bridge is its position in the chain, and the
  children of a bridge (\<open>child\<close>, linked by \<open>next\<close>) are a list of such positions.
\<close>

record bus =
  bus_domain :: nat
  number :: u32
  devs :: "device list"

record bridge =
  br_domain :: nat
  primary :: u32
  secondary :: u32
  subordinate :: u32
  br_dev :: "device option"
  child :: "nat list"
  first_bus :: "bus list"

text \<open>
  \<open>static struct bridge host_bridge = { NULL, NULL, NULL, NULL, 0, ~0, 0, ~0, NULL }\<close>:
  domain 0, primary \<open>~0\<close>, secondary 0, subordinate \<open>~0\<close>.
\<close>

definition host_bridge :: bridge where
  "host_bridge =
     \<lparr>br_domain = 0, primary = NOT 0, secondary = 0, subordinate = NOT 0,
      br_dev = None, child = [], first_bus = []\<rparr>"

subsection \<open>Build list of bridges\<close>

definition is_bridge :: "header_h \<Rightarrow> device \<Rightarrow> bool" where
  "is_bridge L d =
     (let class = get_conf_word d (PCI_CLASS_DEVICE L);
          ht = get_conf_byte d (PCI_HEADER_TYPE L) AND 0x7f
      in class = PCI_CLASS_BRIDGE_PCI L \<and>
         (ht = PCI_HEADER_TYPE_BRIDGE L \<or> ht = PCI_HEADER_TYPE_CARDBUS L))"

text \<open>
  The bridge that \<open>grow_tree\<close> allocates for a device \<open>d\<close>. As in the source, the
  branch \<open>ht == PCI_HEADER_TYPE_BRIDGE\<close> reads at the \<open>PCI_CB_\<close> offsets and the other
  branch at the offsets of the bridge header.
\<close>

definition new_bridge :: "header_h \<Rightarrow> device \<Rightarrow> bridge" where
  "new_bridge L d =
     (let ht = get_conf_byte d (PCI_HEADER_TYPE L) AND 0x7f in
      if ht = PCI_HEADER_TYPE_BRIDGE L then
        \<lparr>br_domain = p_domain (dev d),
         primary = ucast (get_conf_byte d (PCI_CB_PRIMARY_BUS L)),
         secondary = ucast (get_conf_byte d (PCI_CB_CARD_BUS L)),
         subordinate = ucast (get_conf_byte d (PCI_CB_SUBORDINATE_BUS L)),
         br_dev = Some d, child = [], first_bus = []\<rparr>
      else
        \<lparr>br_domain = p_domain (dev d),
         primary = ucast (get_conf_byte d (PCI_PRIMARY_BUS L)),
         secondary = ucast (get_conf_byte d (PCI_SECONDARY_BUS L)),
         subordinate = ucast (get_conf_byte d (PCI_SUBORDINATE_BUS L)),
         br_dev = Some d, child = [], first_bus = []\<rparr>)"

fun build_bridges :: "header_h \<Rightarrow> device list \<Rightarrow> bridge list" where
  "build_bridges L [] = []"
| "build_bridges L (d # ds) =
     (if is_bridge L d then new_bridge L d # build_bridges L ds else build_bridges L ds)"

text \<open>The chain after the first loop: \<open>host_bridge\<close>, then the bridges in the order of the devices.\<close>

definition bridge_chain :: "header_h \<Rightarrow> device list \<Rightarrow> bridge list" where
  "bridge_chain L first_dev = host_bridge # build_bridges L first_dev"

subsection \<open>Create a bridge tree\<close>

text \<open>
  The inner loop over \<open>c\<close> for the bridge \<open>b\<close>: \<open>cs\<close> are the positions still to
  visit and \<open>best\<close> the candidate so far. The differences are 32-bit.
\<close>

fun find_best :: "bridge list \<Rightarrow> nat \<Rightarrow> nat list \<Rightarrow> nat option \<Rightarrow> nat option" where
  "find_best chain b [] best = best"
| "find_best chain b (c # cs) best =
     find_best chain b cs
       (if c \<noteq> b \<and> (c = 0 \<or> br_domain (chain ! b) = br_domain (chain ! c)) \<and>
           primary (chain ! b) \<ge> secondary (chain ! c) \<and>
           primary (chain ! b) \<le> subordinate (chain ! c) \<and>
           (case best of
              None \<Rightarrow> True
            | Some bst \<Rightarrow> subordinate (chain ! bst) - primary (chain ! bst)
                          > subordinate (chain ! c) - primary (chain ! c))
        then Some c else best)"

text \<open>\<open>b->next = best->child; best->child = b\<close>: \<open>b\<close> becomes the first child of \<open>best\<close>.\<close>

definition attach :: "bridge list \<Rightarrow> nat \<Rightarrow> bridge list" where
  "attach chain b =
     (case find_best chain b [0 ..< length chain] None of
        None \<Rightarrow> chain
      | Some best \<Rightarrow> chain[best := (chain ! best)\<lparr>child := b # child (chain ! best)\<rparr>])"

fun link_bridges :: "bridge list \<Rightarrow> nat list \<Rightarrow> bridge list" where
  "link_bridges chain [] = chain"
| "link_bridges chain (b # bs) = link_bridges (attach chain b) bs"

definition create_tree :: "bridge list \<Rightarrow> bridge list" where
  "create_tree chain = link_bridges chain [0 ..< length chain]"

subsection \<open>Insert secondary bus for each bridge\<close>

text \<open>\<open>find_bus\<close> returns the position of the bus in the list of the bridge.\<close>

fun find_bus :: "bus list \<Rightarrow> nat \<Rightarrow> u32 \<Rightarrow> nat option" where
  "find_bus [] domain n = None"
| "find_bus (u # us) domain n =
     (if bus_domain u = domain \<and> number u = n then Some 0
      else map_option Suc (find_bus us domain n))"

definition new_bus :: "bridge \<Rightarrow> nat \<Rightarrow> u32 \<Rightarrow> bridge" where
  "new_bus b domain n =
     b\<lparr>first_bus := \<lparr>bus_domain = domain, number = n, devs = []\<rparr> # first_bus b\<rparr>"

definition add_secondary :: "bridge \<Rightarrow> bridge" where
  "add_secondary b =
     (case find_bus (first_bus b) (br_domain b) (secondary b) of
        None \<Rightarrow> new_bus b (br_domain b) (secondary b)
      | Some k \<Rightarrow> b)"

subsection \<open>Create bus structs and link devices\<close>

text \<open>\<open>*bus->last_dev = d; bus->last_dev = &d->next\<close> on the \<open>k\<close>-th bus of bridge \<open>b\<close>.\<close>

definition append_dev :: "bridge list \<Rightarrow> nat \<Rightarrow> nat \<Rightarrow> device \<Rightarrow> bridge list" where
  "append_dev tree b k d =
     (let br = tree ! b; u = first_bus br ! k
      in tree[b := br\<lparr>first_bus := (first_bus br)[k := u\<lparr>devs := devs u @ [d]\<rparr>]\<rparr>])"

text \<open>The loop of \<open>insert_dev\<close> over the children \<open>c\<close> of a bridge.\<close>

fun find_child :: "bridge list \<Rightarrow> nat list \<Rightarrow> nat \<Rightarrow> u32 \<Rightarrow> nat option" where
  "find_child tree [] domain n = None"
| "find_child tree (c # cs) domain n =
     (if br_domain (tree ! c) = domain \<and> secondary (tree ! c) \<le> n \<and> n \<le> subordinate (tree ! c)
      then Some c else find_child tree cs domain n)"

text \<open>
  \<open>insert_dev\<close>; the depth of the descent through the children is bounded by the
  first argument, \<open>None\<close> meaning that the bound did not suffice.
\<close>

fun insert_dev :: "nat \<Rightarrow> bridge list \<Rightarrow> device \<Rightarrow> nat \<Rightarrow> bridge list option" where
  "insert_dev 0 tree d b = None"
| "insert_dev (Suc n) tree d b =
     (let domain = p_domain (dev d); nr = ucast (p_bus (dev d)) in
      case find_bus (first_bus (tree ! b)) domain nr of
        Some k \<Rightarrow> Some (append_dev tree b k d)
      | None \<Rightarrow>
          (case find_child tree (child (tree ! b)) domain nr of
             Some c \<Rightarrow> insert_dev n tree d c
           | None \<Rightarrow> Some (append_dev (tree[b := new_bus (tree ! b) domain nr]) b 0 d)))"

fun insert_devs :: "nat \<Rightarrow> bridge list \<Rightarrow> device list \<Rightarrow> bridge list option" where
  "insert_devs n tree [] = Some tree"
| "insert_devs n tree (d # ds) =
     (case insert_dev n tree d 0 of
        None \<Rightarrow> None
      | Some tree' \<Rightarrow> insert_devs n tree' ds)"

text \<open>\<open>grow_tree\<close> on the sorted list \<open>first_dev\<close>; the tree is the chain of bridges.\<close>

definition grow_tree :: "nat \<Rightarrow> header_h \<Rightarrow> device list \<Rightarrow> bridge list option" where
  "grow_tree n L first_dev =
     insert_devs n (map add_secondary (create_tree (bridge_chain L first_dev))) first_dev"

text \<open>
  The buses of the tree in pre-order: the buses of a bridge, then the subtrees of its
  children in the order of the \<open>child\<close> list. The depth is bounded as in
  \<open>insert_dev\<close>.
\<close>

fun tree_buses :: "nat \<Rightarrow> bridge list \<Rightarrow> nat \<Rightarrow> bus list option" where
  "tree_buses 0 tree b = None"
| "tree_buses (Suc n) tree b =
     (case those (map (tree_buses n tree) (child (tree ! b))) of
        None \<Rightarrow> None
      | Some subtrees \<Rightarrow> Some (first_bus (tree ! b) @ concat subtrees))"

text \<open>
  The order of \<open>compare_them\<close>: by domain, bus, device and function. A registry is
  sorted when the order is strict along the list.
\<close>

definition dev_less :: "device \<Rightarrow> device \<Rightarrow> bool" where
  "dev_less a b =
     (let p = dev a; q = dev b in
      p_domain p < p_domain q \<or>
      (p_domain p = p_domain q \<and>
        (p_bus p < p_bus q \<or>
         (p_bus p = p_bus q \<and>
           (p_dev p < p_dev q \<or> (p_dev p = p_dev q \<and> p_func p < p_func q))))))"

text \<open>A device is on a bus when domain and bus number agree.\<close>

definition on_bus :: "bus \<Rightarrow> device \<Rightarrow> bool" where
  "on_bus u d = (p_domain (dev d) = bus_domain u \<and> ucast (p_bus (dev d)) = number u)"

section \<open>The configuration cache of the adna tool\<close>

text \<open>
  The adna tool keeps a second \<open>config_fetch\<close>, over a buffer that grows and a mask
  \<open>present\<close> with one byte for every byte of the buffer. Its \<open>struct device\<close> is
  declared in a header that is not part of the sources; the fields are the ones the
  code uses. \<open>config_bufsize\<close>, \<open>pos\<close> and \<open>len\<close> are \<open>unsigned int\<close>: they are
  natural numbers below \<open>2 ^ 32\<close>, and every sum and product that can leave that
  range is reduced modulo \<open>2 ^ 32 = 4294967296\<close>.
\<close>

record cached_device =
  cd_dev :: pci_dev
  config_cached :: nat
  config_bufsize :: nat
  cd_config :: "byte list"
  present :: "byte list"

text \<open>
  The first loop of \<open>config_fetch\<close>:
  \<open>while (pos < d->config_bufsize && len && d->present[pos]) pos++, len--;\<close>
\<close>

function skip_front :: "byte list \<Rightarrow> nat \<Rightarrow> nat \<Rightarrow> nat \<Rightarrow> nat \<times> nat" where
  "skip_front pr bufsize pos len =
     (if pos < bufsize \<and> len \<noteq> 0 \<and> pr ! pos \<noteq> 0
      then skip_front pr bufsize ((pos + 1) mod 4294967296) (len - 1)
      else (pos, len))"
  by pat_completeness auto
termination
  by (relation "measure (\<lambda>(pr, bufsize, pos, len). len)") auto

text \<open>
  The second loop:
  \<open>while (pos+len <= d->config_bufsize && len && d->present[pos+len-1]) len--;\<close>
\<close>

function skip_back :: "byte list \<Rightarrow> nat \<Rightarrow> nat \<Rightarrow> nat \<Rightarrow> nat" where
  "skip_back pr bufsize pos len =
     (if (pos + len) mod 4294967296 \<le> bufsize \<and> len \<noteq> 0 \<and>
         pr ! ((pos + len + 4294967295) mod 4294967296) \<noteq> 0
      then skip_back pr bufsize pos (len - 1)
      else len)"
  by pat_completeness auto
termination
  by (relation "measure (\<lambda>(pr, bufsize, pos, len). len)") auto

declare skip_front.simps [simp del] skip_back.simps [simp del]

text \<open>
  \<open>while (end > d->config_bufsize) d->config_bufsize *= 2;\<close> never ends when the
  size is 0 or wraps around to 0: the result is then \<open>None\<close>.
\<close>

partial_function (option) grow_bufsize :: "nat \<Rightarrow> nat \<Rightarrow> nat option" where
  "grow_bufsize end_pos bufsize =
     (if end_pos > bufsize then grow_bufsize end_pos (bufsize * 2 mod 4294967296)
      else Some bufsize)"

definition memset :: "byte list \<Rightarrow> nat \<Rightarrow> byte \<Rightarrow> nat \<Rightarrow> byte list" where
  "memset xs pos v len = take pos xs @ replicate len v @ drop (pos + len) xs"

text \<open>
  \<open>config_fetch\<close> of the adna tool: the C result, the device, and the requests
  \<open>(pos, len)\<close> sent to the hardware. \<open>xrealloc\<close> keeps the old bytes; the new bytes
  of \<open>config\<close> are indeterminate in C and zero here, those of \<open>present\<close> are
  cleared by the \<open>memset\<close> of the source.
\<close>

definition config_fetch_adna ::
  "hardware \<Rightarrow> cached_device \<Rightarrow> nat \<Rightarrow> nat \<Rightarrow> (bool \<times> cached_device \<times> (nat \<times> nat) list) option" where
  "config_fetch_adna hw d pos0 len0 =
     (let end_pos = (pos0 + len0) mod 4294967296;
          (pos, len1) = skip_front (present d) (config_bufsize d) pos0 len0;
          len = skip_back (present d) (config_bufsize d) pos len1
      in if len = 0 then Some (True, d, [])
         else
           (case grow_bufsize end_pos (config_bufsize d) of
              None \<Rightarrow> None
            | Some bufsize \<Rightarrow>
                (let orig_size = config_bufsize d;
                     d1 = d\<lparr>config_bufsize := bufsize,
                             cd_config := cd_config d @ replicate (bufsize - orig_size) 0,
                             present := present d @ replicate (bufsize - orig_size) 0\<rparr>
                 in case hw (cd_dev d) pos len of
                      None \<Rightarrow> Some (False, d1, [(pos, len)])
                    | Some bs \<Rightarrow>
                        Some (True,
                              d1\<lparr>cd_config := store_block (cd_config d1) pos bs,
                                 present := memset (present d1) pos 1 len\<rparr>,
                              [(pos, len)]))))"

text \<open>
  \<open>scan_device\<close> of the adna tool reads the first 256 bytes and marks them all
  present. \<open>pcidev_is_adnacom\<close> compares the identity that libpci reports with a
  table of devices; its verdict is a parameter. A device that is filtered out, is not
  an Adnacom device, or cannot be read gives \<open>NULL\<close>.
\<close>

definition scan_device_adna ::
  "(pci_dev \<Rightarrow> bool) \<Rightarrow> bool \<Rightarrow> (pci_dev \<Rightarrow> bool) \<Rightarrow> hardware \<Rightarrow> pci_dev \<Rightarrow> cached_device option" where
  "scan_device_adna pci_filter_match need_topology pcidev_is_adnacom hw p =
     (if \<not> pci_filter_match p \<and> \<not> need_topology then None
      else if \<not> pcidev_is_adnacom p then None
      else
        (case hw p 0 256 of
           None \<Rightarrow> None
         | Some bs \<Rightarrow>
             Some \<lparr>cd_dev = p, config_cached = 256, config_bufsize = 256,
                   cd_config = store_block (replicate 256 0) 0 bs,
                   present = memset (replicate 256 0) 0 1 256\<rparr>))"

section \<open>Concrete inputs\<close>

text \<open>
  The values of libpci's header.h (pciutils 2.1): the bus numbers of a bridge
  header and of a cardbus header sit at the same three offsets.
\<close>

definition pci_header :: header_h where
  "pci_header =
     \<lparr>PCI_VENDOR_ID = 0x00, PCI_CLASS_DEVICE = 0x0a, PCI_HEADER_TYPE = 0x0e,
      PCI_HEADER_TYPE_BRIDGE = 1, PCI_HEADER_TYPE_CARDBUS = 2, PCI_CLASS_BRIDGE_PCI = 0x0604,
      PCI_PRIMARY_BUS = 0x18, PCI_SECONDARY_BUS = 0x19, PCI_SUBORDINATE_BUS = 0x1a,
      PCI_CB_PRIMARY_BUS = 0x18, PCI_CB_CARD_BUS = 0x19, PCI_CB_SUBORDINATE_BUS = 0x1a\<rparr>"

text \<open>A hardware that answers every block read with zero bytes.\<close>

definition hw_zero :: hardware where
  "hw_zero p pos len = Some (replicate len 0)"

definition dev0 :: pci_dev where
  "dev0 = \<lparr>p_domain = 0, p_bus = 0, p_dev = 0, p_func = 0\<rparr>"

definition scanned0 :: device where
  "scanned0 = \<lparr>dev = dev0, config_cnt = 64, config = replicate 256 0\<rparr>"

text \<open>Tables of bridge claims as the prober leaves them: no guestbook signed.\<close>

definition claim :: "byte \<Rightarrow> byte \<Rightarrow> byte \<Rightarrow> byte \<Rightarrow> bus_bridge" where
  "claim this slot fst_bus lst_bus =
     \<lparr>bb_this = this, bb_dev = slot, bb_func = 0, bb_first = fst_bus, bb_last = lst_bus, bb_bug = 0\<rparr>"

definition table_of :: "(byte \<times> bus_bridge list) list \<Rightarrow> map_state" where
  "table_of rows =
     bzero_state\<lparr>bus_info := (\<lambda>b. case map_of rows b of
        None \<Rightarrow> \<lparr>bi_exists = False, bi_guestbook = False, bi_bridges = [], bi_via = None\<rparr>
      | Some cs \<Rightarrow> \<lparr>bi_exists = True, bi_guestbook = False, bi_bridges = cs, bi_via = None\<rparr>)\<rparr>"

text \<open>Two bridges on bus 0 that both claim bus 5.\<close>

definition overlap_table :: map_state where
  "overlap_table = table_of [(0, [claim 0 1 5 5, claim 0 2 5 5]), (5, [])]"

text \<open>A bridge on bus 0 to the buses 10 to 20, and on bus 10 a bridge that claims 5 to 30.\<close>

definition crossing_table :: map_state where
  "crossing_table = table_of [(0, [claim 0 1 10 20]), (10, [claim 10 0 5 30])]"

text \<open>Bus 0 leads to bus 1; bus 1 claims bus 0 back, and itself.\<close>

definition cyclic_table :: map_state where
  "cyclic_table = table_of [(0, [claim 0 1 1 1]), (1, [claim 1 0 0 0, claim 1 1 1 1])]"

text \<open>Devices for the tree builder: a configuration header with the given fields.\<close>

definition config_with :: "(nat \<times> byte) list \<Rightarrow> byte list" where
  "config_with settings = foldr (\<lambda>(i, v) cfg. cfg[i := v]) settings (replicate 256 0)"

definition plain_dev :: "nat \<Rightarrow> byte \<Rightarrow> byte \<Rightarrow> byte \<Rightarrow> device" where
  "plain_dev domain bus_nr slot fn =
     \<lparr>dev = \<lparr>p_domain = domain, p_bus = bus_nr, p_dev = slot, p_func = fn\<rparr>,
      config_cnt = 64, config = replicate 256 0\<rparr>"

text \<open>
  A PCI-to-PCI bridge (class 0x0604) with header type \<open>ht\<close> and the three bus numbers
  at the offsets 0x18, 0x19 and 0x1a.
\<close>

definition bridge_dev :: "nat \<Rightarrow> byte \<Rightarrow> byte \<Rightarrow> byte \<Rightarrow> byte \<Rightarrow> byte \<Rightarrow> byte \<Rightarrow> byte \<Rightarrow> device" where
  "bridge_dev domain bus_nr slot fn ht pri sec sub =
     \<lparr>dev = \<lparr>p_domain = domain, p_bus = bus_nr, p_dev = slot, p_func = fn\<rparr>,
      config_cnt = 64,
      config = config_with [(0x0a, 0x04), (0x0b, 0x06), (0x0e, ht), (0x18, pri), (0x19, sec), (0x1a, sub)]\<rparr>"

text \<open>
  The end-to-end scenario: a bridge 00:01.0 from bus 0 to bus 1, a device 00:03.0 on
  bus 0 and a device 01:00.0 behind the bridge.
\<close>

definition scenario :: "device list" where
  "scenario = [bridge_dev 0 0 1 0 1 0 1 1, plain_dev 0 0 3 0, plain_dev 0 1 0 0]"

text \<open>
  The bridges A with the range [0, 255] and B with the range [10, 20], and a bridge C
  whose primary bus is 15.
\<close>

definition nested :: "device list" where
  "nested = [bridge_dev 0 0 1 0 1 0 0 255, bridge_dev 0 0 2 0 1 0 10 20, bridge_dev 0 15 0 0 1 15 16 16]"

text \<open>A bridge that reports secondary 30 and subordinate 20.\<close>

definition inverted :: "device list" where
  "inverted = [bridge_dev 0 0 1 0 1 0 30 20]"



text \<open>
  A machine for the prober with the single function \<open>d\<close>; only its slot on bus 0 is
  probed (\<open>-s 0:1\<close>).
\<close>

definition bridge_env :: "device \<Rightarrow> probe_env" where
  "bridge_env d =
     \<lparr>pci_read_word = (\<lambda>p pos. if p = dev d \<and> pos = 0 then 0x8086 else 0xffff),
      pci_read_byte = (\<lambda>p pos. if p = dev d then config d ! pos else 0xff),
      pci_read_block = (\<lambda>p pos len. if p = dev d then Some (take len (drop pos (config d))) else None),
      filter_match = (\<lambda>p. True),
      filter_bus = 0, filter_slot = 1, filter_func = - 1,
      fresh_bug = (\<lambda>p. 0)\<rparr>"


text \<open>
  Caches of the adna tool: an empty one of 256 bytes, the same with \<open>[0, 64)\<close> and
  with \<open>[0, 96)\<close> present, a device as \<open>scan_device\<close> leaves it, and that device
  after a fetch of \<open>[260, 264)\<close>.
\<close>

definition empty_cache :: cached_device where
  "empty_cache = \<lparr>cd_dev = dev0, config_cached = 0, config_bufsize = 256,
     cd_config = replicate 256 0, present = replicate 256 0\<rparr>"

definition cache_0_64 :: cached_device where
  "cache_0_64 = empty_cache\<lparr>present := replicate 64 1 @ replicate 192 0\<rparr>"

definition cache_0_96 :: cached_device where
  "cache_0_96 = empty_cache\<lparr>present := replicate 96 1 @ replicate 160 0\<rparr>"

definition scanned_adna :: cached_device where
  "scanned_adna = \<lparr>cd_dev = dev0, config_cached = 256, config_bufsize = 256,
     cd_config = replicate 256 0, present = replicate 256 1\<rparr>"

definition holed :: cached_device where
  "holed = \<lparr>cd_dev = dev0, config_cached = 256, config_bufsize = 512,
     cd_config = replicate 512 0,
     present = replicate 256 1 @ replicate 4 0 @ replicate 4 1 @ replicate 248 0\<rparr>"
section \<open>Vocabulary of the proofs\<close>

text \<open>The tags of \<open>bug\<close> as \<open>map_bridges\<close> prints them: 1 is the overlap bug, 2 the crossing bug.\<close>

definition overlap_bug :: byte where
  "overlap_bug = 1"

definition crossing_bug :: byte where
  "crossing_bug = 2"

text \<open>The buses whose guestbook \<open>do_map_bridges\<close> has not signed yet.\<close>

definition unsigned_buses :: "map_state \<Rightarrow> byte set" where
  "unsigned_buses st = {b. \<not> bi_guestbook (bus_info st b)}"

text \<open>What a call of depth \<open>n\<close> promises: it returns when fewer than \<open>n\<close> buses are left.\<close>

definition call_ok :: "nat \<Rightarrow> (map_state \<Rightarrow> byte \<Rightarrow> int \<Rightarrow> int \<Rightarrow> map_state option) \<Rightarrow> bool" where
  "call_ok n call = (\<forall>st b mn mx. card (unsigned_buses st - {b}) < n \<longrightarrow>
      (\<exists>st'. call st b mn mx = Some st' \<and> unsigned_buses st' \<subseteq> unsigned_buses st - {b}))"

text \<open>The record of entries agrees with the guestbook flags and names no bus twice.\<close>

definition guest_inv :: "map_state \<Rightarrow> bool" where
  "guest_inv st = (distinct (entered st) \<and> set (entered st) = - unsigned_buses st)"

text \<open>
  What the loop over the claims of a bus, and what one call of \<open>do_map_bridges\<close>,
  leaves untouched: signed buses stay signed and keep their entry bridge.
\<close>

definition loop_frame :: "map_state \<Rightarrow> map_state \<Rightarrow> bool" where
  "loop_frame st st' =
     (unsigned_buses st' \<subseteq> unsigned_buses st \<and>
      (\<forall>x. x \<notin> unsigned_buses st \<longrightarrow> bi_via (bus_info st' x) = bi_via (bus_info st x)) \<and>
      (\<exists>es. entered st' = entered st @ es) \<and>
      (guest_inv st \<longrightarrow> guest_inv st'))"

definition call_frame :: "map_state \<Rightarrow> byte \<Rightarrow> map_state \<Rightarrow> bool" where
  "call_frame st b st' =
     (unsigned_buses st' \<subseteq> unsigned_buses st - {b} \<and>
      (\<forall>x. x \<notin> unsigned_buses st \<or> x = b \<longrightarrow> bi_via (bus_info st' x) = bi_via (bus_info st x)) \<and>
      (\<exists>es. entered st' = entered st @ b # es) \<and>
      (guest_inv st \<and> b \<in> unsigned_buses st \<longrightarrow> guest_inv st'))"

definition call_sound :: "(map_state \<Rightarrow> byte \<Rightarrow> int \<Rightarrow> int \<Rightarrow> map_state option) \<Rightarrow> bool" where
  "call_sound call = (\<forall>st b mn mx st'. call st b mn mx = Some st' \<longrightarrow> call_frame st b st')"

text \<open>The vocabulary of the proofs about bus mapping and about the tree.\<close>

text \<open>Every probed address lies in domain 0, and every recorded claim comes from a probed address.\<close>

definition domain0 :: "map_state \<Rightarrow> bool" where
  "domain0 st = ((\<forall>p \<in> set (probed st). p_domain p = 0) \<and>
     (\<forall>b. \<forall>c \<in> set (bi_bridges (bus_info st b)).
        \<exists>p \<in> set (probed st). p_bus p = b \<and> p_dev p = bb_dev c \<and> p_func p = bb_func c))"

text \<open>The shape of the chain that the first loop of \<open>grow_tree\<close> builds: the host bridge at the head, and bus numbers read from a byte behind it.\<close>

definition hosted :: "bridge list \<Rightarrow> bool" where
  "hosted chain = (chain \<noteq> [] \<and> primary (chain ! 0) = NOT 0 \<and> secondary (chain ! 0) = 0 \<and>
     subordinate (chain ! 0) = NOT 0 \<and>
     (\<forall>c. 0 < c \<and> c < length chain \<longrightarrow> subordinate (chain ! c) \<le> 255))"



text \<open>The parent of \<open>b\<close> in the tree: the first bridge that lists \<open>b\<close> among its children.\<close>

definition parent_of :: "bridge list \<Rightarrow> nat \<Rightarrow> nat option" where
  "parent_of tree b = find (\<lambda>c. b \<in> set (child (tree ! c))) [0 ..< length tree]"

text \<open>A bus and a device are matched by domain and bus number.\<close>

definition bus_key :: "bus \<Rightarrow> nat \<times> u32" where
  "bus_key u = (bus_domain u, number u)"

definition dev_key :: "device \<Rightarrow> nat \<times> u32" where
  "dev_key d = (p_domain (dev d), ucast (p_bus (dev d)))"

text \<open>A tree in which every bridge is a child of the host bridge.\<close>

definition flat_tree :: "bridge list \<Rightarrow> bool" where
  "flat_tree t = (t \<noteq> [] \<and> child (t ! 0) = rev [1 ..< length t] \<and>
     (\<forall>c. 0 < c \<and> c < length t \<longrightarrow> child (t ! c) = []))"

text \<open>What \<open>insert_dev\<close> does at the bridge where the descent ends.\<close>

definition bridge_insert :: "bridge \<Rightarrow> device \<Rightarrow> bridge" where
  "bridge_insert b d =
     (case find_bus (first_bus b) (fst (dev_key d)) (snd (dev_key d)) of
        Some k \<Rightarrow> b\<lparr>first_bus := (first_bus b)[k := (first_bus b ! k)\<lparr>devs := devs (first_bus b ! k) @ [d]\<rparr>]\<rparr>
      | None \<Rightarrow> b\<lparr>first_bus := \<lparr>bus_domain = fst (dev_key d), number = snd (dev_key d), devs = [d]\<rparr> # first_bus b\<rparr>)"

definition place :: "bridge list \<Rightarrow> nat \<Rightarrow> device \<Rightarrow> bridge list" where
  "place t r d = t[r := bridge_insert (t ! r) d]"

text \<open>The bridge at which the descent of \<open>insert_dev\<close> ends for a device with the key \<open>k\<close>.\<close>

definition route :: "bridge list \<Rightarrow> nat \<times> u32 \<Rightarrow> nat" where
  "route t k =
     (if k \<in> bus_key ` set (first_bus (t ! 0)) then 0
      else case find_child t (child (t ! 0)) (fst k) (snd k) of Some c \<Rightarrow> c | None \<Rightarrow> 0)"

text \<open>The devices that a bridge holds on its bus with the key \<open>k\<close>.\<close>

definition devs_at :: "bridge \<Rightarrow> nat \<times> u32 \<Rightarrow> device list" where
  "devs_at b k = concat (map devs (filter (\<lambda>u. bus_key u = k) (first_bus b)))"

definition bridge_keys :: "bridge \<Rightarrow> (nat \<times> u32) set" where
  "bridge_keys b = bus_key ` set (first_bus b)"

definition bridge_devs :: "bridge \<Rightarrow> device list" where
  "bridge_devs b = concat (map devs (first_bus b))"

text \<open>The tree after the devices \<open>seen\<close> have been inserted: each bus holds, in the order of the registry, the devices routed to it.\<close>

definition tree_inv :: "device list \<Rightarrow> bridge list \<Rightarrow> bool" where
  "tree_inv seen t =
     (flat_tree t \<and>
      (\<forall>i < length t. distinct (map bus_key (first_bus (t ! i)))) \<and>
      (\<forall>i < length t. \<forall>k. devs_at (t ! i) k =
         (if route t k = i then filter (\<lambda>d. dev_key d = k) seen else [])))"

text \<open>The fields of a bridge that \<open>grow_tree\<close> sets once.\<close>

definition numbers :: "bridge \<Rightarrow> nat \<times> u32 \<times> u32 \<times> u32 \<times> device option" where
  "numbers b = (br_domain b, primary b, secondary b, subordinate b, br_dev b)"

text \<open>Insertion keeps the bridges, their numbers and their buses.\<close>

definition grown :: "bridge list \<Rightarrow> bridge list \<Rightarrow> bool" where
  "grown t t' = (length t' = length t \<and>
     (\<forall>i < length t. numbers (t' ! i) = numbers (t ! i) \<and> bridge_keys (t ! i) \<subseteq> bridge_keys (t' ! i)))"

text \<open>The table as the prober leaves it: no guestbook signed, no bus entered.\<close>

definition untouched :: "map_state \<Rightarrow> bool" where
  "untouched st = (entered st = [] \<and> (\<forall>b. \<not> bi_guestbook (bus_info st b)))"


text \<open>
  The vocabulary of the adna cache: byte \<open>i\<close> is cached, the bytes of
  \<open>[pos, pos + len)\<close> that are missing, in ascending order, and the one range that
  reaches from the first to the last of them.
\<close>

definition cached :: "cached_device \<Rightarrow> nat \<Rightarrow> bool" where
  "cached d i = (i < config_bufsize d \<and> present d ! i \<noteq> 0)"

definition missing :: "cached_device \<Rightarrow> nat \<Rightarrow> nat \<Rightarrow> nat list" where
  "missing d pos len = filter (\<lambda>i. \<not> cached d i) [pos..<pos + len]"

definition hull :: "nat list \<Rightarrow> (nat \<times> nat) list" where
  "hull m = (if m = [] then [] else [(hd m, last m + 1 - hd m)])"

text \<open>The mask and the buffer have the size that \<open>config_bufsize\<close> names.\<close>

definition well_formed :: "cached_device \<Rightarrow> bool" where
  "well_formed d = (length (present d) = config_bufsize d \<and> length (cd_config d) = config_bufsize d \<and>
     0 < config_bufsize d \<and> config_bufsize d < 4294967296)"

section \<open>The validator terminates and signs each guestbook once\<close>


lemma unsigned_set_bug [simp]: "unsigned_buses (set_bug st bus j v) = unsigned_buses st"
  by (auto simp: unsigned_buses_def set_bug_def Let_def)

lemma unsigned_set_via [simp]: "unsigned_buses (set_via st bus b) = unsigned_buses st"
  by (auto simp: unsigned_buses_def set_via_def)

lemma unsigned_sign [simp]: "unsigned_buses (sign_guestbook st bus) = unsigned_buses st - {bus}"
  by (auto simp: unsigned_buses_def sign_guestbook_def)

lemma entered_set_bug [simp]: "entered (set_bug st bus j v) = entered st"
  by (simp add: set_bug_def Let_def)

lemma entered_set_via [simp]: "entered (set_via st bus b) = entered st"
  by (simp add: set_via_def)

lemma entered_sign [simp]: "entered (sign_guestbook st bus) = entered st @ [bus]"
  by (simp add: sign_guestbook_def)

lemma claims_loop_returns:
  assumes "call_ok n call"
  shows "card (unsigned_buses st) \<le> n \<Longrightarrow>
     \<exists>st'. claims_loop call bus mn mx js st = Some st' \<and> unsigned_buses st' \<subseteq> unsigned_buses st"
proof (induction js arbitrary: st)
  case Nil
  then show ?case by simp
next
  case (Cons j js)
  let ?b = "bi_bridges (bus_info st bus) ! j"
  have "\<exists>st1. visit_claim call bus mn mx j st = Some st1 \<and> unsigned_buses st1 \<subseteq> unsigned_buses st"
  proof (cases "bi_guestbook (bus_info st (bb_first ?b)) \<or> uint (bb_first ?b) < mn \<or> uint (bb_last ?b) > mx")
    case True
    then show ?thesis by (auto simp: visit_claim_def Let_def)
  next
    case False
    then have mem: "bb_first ?b \<in> unsigned_buses st"
      by (simp add: unsigned_buses_def)
    have "card (unsigned_buses st - {bb_first ?b}) < card (unsigned_buses st)"
      using mem by (intro card_Diff1_less) simp_all
    then have "card (unsigned_buses (set_via st (bb_first ?b) (bus, j)) - {bb_first ?b}) < n"
      using Cons.prems by simp
    then obtain st1 where "call (set_via st (bb_first ?b) (bus, j)) (bb_first ?b) (uint (bb_first ?b)) (uint (bb_last ?b)) = Some st1"
      and "unsigned_buses st1 \<subseteq> unsigned_buses (set_via st (bb_first ?b) (bus, j)) - {bb_first ?b}"
      using assms unfolding call_ok_def by blast
    then show ?thesis using False by (auto simp: visit_claim_def Let_def)
  qed
  then obtain st1 where v: "visit_claim call bus mn mx j st = Some st1"
    and s: "unsigned_buses st1 \<subseteq> unsigned_buses st" by blast
  have "card (unsigned_buses st1) \<le> n"
    using s Cons.prems card_mono [of "unsigned_buses st" "unsigned_buses st1"] by simp
  from Cons.IH [OF this] obtain st' where "claims_loop call bus mn mx js st1 = Some st'"
    and "unsigned_buses st' \<subseteq> unsigned_buses st1" by blast
  then show ?case using v s by auto
qed

lemma do_map_bridges_call_ok: "call_ok n (do_map_bridges n)"
proof (induction n)
  case 0
  then show ?case by (simp add: call_ok_def)
next
  case (Suc n)
  show ?case unfolding call_ok_def
  proof (intro allI impI)
    fix st b mn mx
    assume "card (unsigned_buses st - {b}) < Suc n"
    then have "card (unsigned_buses (sign_guestbook st b)) \<le> n" by simp
    from claims_loop_returns [OF Suc this]
    show "\<exists>st'. do_map_bridges (Suc n) st b mn mx = Some st' \<and> unsigned_buses st' \<subseteq> unsigned_buses st - {b}"
      by (simp add: sign_guestbook_def) (metis unsigned_sign sign_guestbook_def)
  qed
qed

lemma card_byte_minus: "card (A - {b :: byte}) < 256"
proof -
  have "card (A - {b}) \<le> card (UNIV - {b})"
    by (rule card_mono) auto
  also have "\<dots> = 255" by (simp add: card_Diff_singleton card_word)
  finally show ?thesis by simp
qed

lemma do_map_bridges_terminates:
  "256 \<le> n \<Longrightarrow> \<exists>st'. do_map_bridges n st b mn mx = Some st'"
  using do_map_bridges_call_ok [of n] card_byte_minus [of "unsigned_buses st" b]
  unfolding call_ok_def by (meson less_le_trans)



lemma via_set_bug [simp]: "bi_via (bus_info (set_bug st bus j v) x) = bi_via (bus_info st x)"
  by (simp add: set_bug_def Let_def)

lemma via_sign [simp]: "bi_via (bus_info (sign_guestbook st bus) x) = bi_via (bus_info st x)"
  by (simp add: sign_guestbook_def)

lemma via_set_via [simp]: "bi_via (bus_info (set_via st bus b) x) = (if x = bus then Some b else bi_via (bus_info st x))"
  by (simp add: set_via_def)

lemma guest_inv_set_bug [simp]: "guest_inv (set_bug st bus j v) = guest_inv st"
  by (simp add: guest_inv_def)

lemma guest_inv_set_via [simp]: "guest_inv (set_via st bus b) = guest_inv st"
  by (simp add: guest_inv_def)

lemma guest_inv_sign: "guest_inv st \<Longrightarrow> bus \<in> unsigned_buses st \<Longrightarrow> guest_inv (sign_guestbook st bus)"
  by (auto simp: guest_inv_def)

lemma loop_frame_refl: "loop_frame st st"
  by (simp add: loop_frame_def)

lemma loop_frame_trans: "loop_frame st st1 \<Longrightarrow> loop_frame st1 st2 \<Longrightarrow> loop_frame st st2"
  unfolding loop_frame_def by (auto; blast)

lemma visit_claim_frame:
  assumes "call_sound call" and "visit_claim call bus mn mx j st = Some st1"
  shows "loop_frame st st1"
proof -
  let ?b = "bi_bridges (bus_info st bus) ! j"
  show ?thesis
  proof (cases "bi_guestbook (bus_info st (bb_first ?b)) \<or> uint (bb_first ?b) < mn \<or> uint (bb_last ?b) > mx")
    case True
    then have "st1 = set_bug st bus j 1 \<or> st1 = set_bug st bus j 2"
      using assms(2) by (auto simp: visit_claim_def Let_def split: if_splits)
    then show ?thesis by (auto simp: loop_frame_def)
  next
    case False
    let ?sv = "set_via st (bb_first ?b) (bus, j)"
    have mem: "bb_first ?b \<in> unsigned_buses st"
      using False by (simp add: unsigned_buses_def)
    have "call ?sv (bb_first ?b) (uint (bb_first ?b)) (uint (bb_last ?b)) = Some st1"
      using assms(2) False by (simp add: visit_claim_def Let_def)
    then have cf: "call_frame ?sv (bb_first ?b) st1"
      using assms(1) by (simp add: call_sound_def)
    show ?thesis
      unfolding loop_frame_def
    proof (intro conjI allI impI)
      show "unsigned_buses st1 \<subseteq> unsigned_buses st"
        using cf by (auto simp: call_frame_def)
      show "\<exists>es. entered st1 = entered st @ es"
        using cf by (auto simp: call_frame_def)
      show "guest_inv st1" if "guest_inv st"
        using cf that mem by (simp add: call_frame_def)
      show "bi_via (bus_info st1 x) = bi_via (bus_info st x)" if "x \<notin> unsigned_buses st" for x
      proof -
        have "x \<noteq> bb_first ?b" using that mem by auto
        moreover have "bi_via (bus_info st1 x) = bi_via (bus_info ?sv x)"
          using cf that by (simp add: call_frame_def)
        ultimately show ?thesis by simp
      qed
    qed
  qed
qed

lemma claims_loop_frame:
  assumes "call_sound call"
  shows "claims_loop call bus mn mx js st = Some st' \<Longrightarrow> loop_frame st st'"
proof (induction js arbitrary: st)
  case Nil
  then show ?case by (simp add: loop_frame_refl)
next
  case (Cons j js)
  then obtain st1 where v: "visit_claim call bus mn mx j st = Some st1"
    and l: "claims_loop call bus mn mx js st1 = Some st'"
    by (auto split: option.splits)
  show ?case
    using loop_frame_trans [OF visit_claim_frame [OF assms v] Cons.IH [OF l]] .
qed

lemma do_map_bridges_sound: "call_sound (do_map_bridges n)"
proof (induction n)
  case 0
  then show ?case by (simp add: call_sound_def)
next
  case (Suc n)
  show ?case unfolding call_sound_def
  proof (intro allI impI)
    fix st b mn mx st'
    assume "do_map_bridges (Suc n) st b mn mx = Some st'"
    then have "loop_frame (sign_guestbook st b) st'"
      using claims_loop_frame [OF Suc] by simp
    then show "call_frame st b st'"
      unfolding loop_frame_def call_frame_def
      by (auto simp: guest_inv_sign)
  qed
qed

lemma map_bridges_loop_ok:
  "256 \<le> n \<Longrightarrow> guest_inv st \<Longrightarrow>
   \<exists>st'. map_bridges_loop n is st = Some st' \<and> guest_inv st'"
proof (induction "is" arbitrary: st)
  case Nil
  then show ?case by simp
next
  case (Cons i "is")
  show ?case
  proof (cases "bi_exists (bus_info st (of_nat i)) \<and> \<not> bi_guestbook (bus_info st (of_nat i))")
    case True
    obtain st1 where d: "do_map_bridges n st (of_nat i) 0 255 = Some st1"
      using do_map_bridges_terminates [OF Cons.prems(1)] by blast
    have "of_nat i \<in> unsigned_buses st" using True by (simp add: unsigned_buses_def)
    then have "guest_inv st1"
      using do_map_bridges_sound [of n] d Cons.prems(2) by (simp add: call_sound_def call_frame_def)
    from Cons.IH [OF Cons.prems(1) this] show ?thesis using True d by simp
  next
    case False
    then show ?thesis using Cons.IH [OF Cons.prems] by auto
  qed
qed

subsection \<open>The examples, run\<close>

lemma overlap_run:
  "map_option entered (do_map_bridges (Suc (Suc 0)) overlap_table 0 0 255) = Some [0, 5] \<and>
   map_option (\<lambda>s. map bb_bug (bi_bridges (bus_info s 0))) (do_map_bridges (Suc (Suc 0)) overlap_table 0 0 255) = Some [0, 1] \<and>
   map_option (\<lambda>s. bi_via (bus_info s 5)) (do_map_bridges (Suc (Suc 0)) overlap_table 0 0 255) = Some (Some (0, 0))"
  by (simp add: overlap_table_def table_of_def bzero_state_def claim_def visit_claim_def
      sign_guestbook_def set_via_def set_bug_def Let_def)

lemma crossing_run:
  "map_option entered (do_map_bridges (Suc (Suc 0)) crossing_table 0 0 255) = Some [0, 10] \<and>
   map_option (\<lambda>s. map bb_bug (bi_bridges (bus_info s 10))) (do_map_bridges (Suc (Suc 0)) crossing_table 0 0 255) = Some [2]"
  by (simp add: crossing_table_def table_of_def bzero_state_def claim_def visit_claim_def
      sign_guestbook_def set_via_def set_bug_def Let_def)

lemma cyclic_run:
  "map_option entered (map_bridges_loop (Suc (Suc 0)) [0, 1] cyclic_table) = Some [0, 1] \<and>
   map_option (\<lambda>s. map bb_bug (bi_bridges (bus_info s 1))) (map_bridges_loop (Suc (Suc 0)) [0, 1] cyclic_table) = Some [1, 1]"
  by (simp add: cyclic_table_def table_of_def bzero_state_def claim_def visit_claim_def
      sign_guestbook_def set_via_def set_bug_def Let_def)



lemma bridges_sign [simp]: "bi_bridges (bus_info (sign_guestbook st b) x) = bi_bridges (bus_info st x)"
  by (simp add: sign_guestbook_def)

lemma guestbook_sign [simp]: "bi_guestbook (bus_info (sign_guestbook st b) x) = (x = b \<or> bi_guestbook (bus_info st x))"
  by (simp add: sign_guestbook_def)

lemma table_of_fields [simp]:
  "bi_bridges (bus_info (table_of rows) b) = (case map_of rows b of None \<Rightarrow> [] | Some cs \<Rightarrow> cs)"
  "bi_guestbook (bus_info (table_of rows) b) = False"
  "entered (table_of rows) = []"
  by (simp_all add: table_of_def bzero_state_def split: option.split)


text \<open>
  C7. The guarded walk of the validator terminates on every table of claims, cyclic
  and duplicate claims included: from a table in which no guestbook is signed, as
  \<open>map_the_bus\<close> hands it over, \<open>map_bridges\<close> returns with any depth of at least
  256, and sets the guestbook flag of each bus it enters exactly once: the record of
  the executions of \<open>bi->guestbook = 1\<close> names no bus twice and names exactly the buses
  whose flag is set.
\<close>

theorem map_bridges_terminates_once:
  "256 \<le> n \<Longrightarrow> entered st = [] \<Longrightarrow> (\<forall>b. \<not> bi_guestbook (bus_info st b)) \<Longrightarrow>
   \<exists>st'. map_bridges n st = Some st' \<and> distinct (entered st') \<and>
         set (entered st') = {b. bi_guestbook (bus_info st' b)}"
proof -
  assume n: "256 \<le> n" and e: "entered st = []" and g: "\<forall>b. \<not> bi_guestbook (bus_info st b)"
  have "guest_inv st" using e g by (auto simp: guest_inv_def unsigned_buses_def)
  from map_bridges_loop_ok [OF n this, of "[0 ..< 256]"]
  show ?thesis by (auto simp: map_bridges_def guest_inv_def unsigned_buses_def)
qed

theorem map_bridges_terminates_once_witness:
  "\<exists>st'. map_bridges 256 cyclic_table = Some st' \<and> distinct (entered st') \<and>
         set (entered st') = {b. bi_guestbook (bus_info st' b)}"
  using map_bridges_terminates_once [of 256 cyclic_table]
  by (simp add: cyclic_table_def)

lemma bug_set_bug: "j < length (bi_bridges (bus_info st bus)) \<Longrightarrow>
   bb_bug (bi_bridges (bus_info (set_bug st bus j v) bus) ! j) = v"
  by (simp add: set_bug_def Let_def)

text \<open>
  C3. One bridge claim \<open>(first, last)\<close> of the current bus, the window being
  \<open>[mn, mx]\<close>: if bus \<open>first\<close> is already signed, the claim is tagged overlap and no
  bus is entered; otherwise, if \<open>first < mn\<close> or \<open>last > mx\<close>, it is tagged crossing
  and no bus is entered; otherwise the walk recurses into bus \<open>first\<close> with the window
  \<open>[first, last]\<close>, returns, and the claim is the entry bridge \<open>via\<close> of that bus.
\<close>

theorem visit_claim_cases:
  assumes j: "j < length (bi_bridges (bus_info st bus))"
    and n: "256 \<le> n"
  shows "let b = bi_bridges (bus_info st bus) ! j;
             r = visit_claim (do_map_bridges n) bus mn mx j st
         in (bi_guestbook (bus_info st (bb_first b)) \<longrightarrow>
               (\<exists>st'. r = Some st' \<and> bb_bug (bi_bridges (bus_info st' bus) ! j) = overlap_bug \<and>
                      entered st' = entered st \<and> unsigned_buses st' = unsigned_buses st)) \<and>
            (\<not> bi_guestbook (bus_info st (bb_first b)) \<and> (uint (bb_first b) < mn \<or> mx < uint (bb_last b)) \<longrightarrow>
               (\<exists>st'. r = Some st' \<and> bb_bug (bi_bridges (bus_info st' bus) ! j) = crossing_bug \<and>
                      entered st' = entered st \<and> unsigned_buses st' = unsigned_buses st)) \<and>
            (\<not> bi_guestbook (bus_info st (bb_first b)) \<and> mn \<le> uint (bb_first b) \<and> uint (bb_last b) \<le> mx \<longrightarrow>
               (\<exists>st'. r = Some st' \<and>
                      r = do_map_bridges n (set_via st (bb_first b) (bus, j)) (bb_first b)
                            (uint (bb_first b)) (uint (bb_last b)) \<and>
                      bi_via (bus_info st' (bb_first b)) = Some (bus, j) \<and>
                      (\<exists>es. entered st' = entered st @ bb_first b # es)))"
proof -
  let ?b = "bi_bridges (bus_info st bus) ! j"
  let ?r = "visit_claim (do_map_bridges n) bus mn mx j st"
  have c1: "\<exists>st'. ?r = Some st' \<and> bb_bug (bi_bridges (bus_info st' bus) ! j) = overlap_bug \<and>
                      entered st' = entered st \<and> unsigned_buses st' = unsigned_buses st"
    if "bi_guestbook (bus_info st (bb_first ?b))"
    using that j by (simp add: visit_claim_def Let_def bug_set_bug overlap_bug_def)
  have c2: "\<exists>st'. ?r = Some st' \<and> bb_bug (bi_bridges (bus_info st' bus) ! j) = crossing_bug \<and>
                      entered st' = entered st \<and> unsigned_buses st' = unsigned_buses st"
    if "\<not> bi_guestbook (bus_info st (bb_first ?b))" "uint (bb_first ?b) < mn \<or> mx < uint (bb_last ?b)"
    using that j by (simp add: visit_claim_def Let_def bug_set_bug crossing_bug_def)
  have c3: "\<exists>st'. ?r = Some st' \<and>
                      ?r = do_map_bridges n (set_via st (bb_first ?b) (bus, j)) (bb_first ?b)
                            (uint (bb_first ?b)) (uint (bb_last ?b)) \<and>
                      bi_via (bus_info st' (bb_first ?b)) = Some (bus, j) \<and>
                      (\<exists>es. entered st' = entered st @ bb_first ?b # es)"
    if g: "\<not> bi_guestbook (bus_info st (bb_first ?b))" and w: "mn \<le> uint (bb_first ?b)" "uint (bb_last ?b) \<le> mx"
  proof -
    let ?sv = "set_via st (bb_first ?b) (bus, j)"
    let ?call = "do_map_bridges n ?sv (bb_first ?b) (uint (bb_first ?b)) (uint (bb_last ?b))"
    have r: "?r = ?call"
      using g w by (simp add: visit_claim_def Let_def)
    obtain st' where s: "?call = Some st'"
      using do_map_bridges_terminates [OF n] by blast
    then have "call_frame ?sv (bb_first ?b) st'"
      using do_map_bridges_sound [of n] by (simp add: call_sound_def)
    then have "bi_via (bus_info st' (bb_first ?b)) = Some (bus, j)"
      and "\<exists>es. entered st' = entered st @ bb_first ?b # es"
      by (simp_all add: call_frame_def)
    then show ?thesis using r s by simp
  qed
  show ?thesis
    unfolding Let_def using c1 c2 c3 by blast
qed

theorem visit_claim_cases_witness:
  "(\<exists>st'. visit_claim (do_map_bridges 256) 0 0 255 1 (sign_guestbook overlap_table 5) = Some st' \<and>
      bb_bug (bi_bridges (bus_info st' 0) ! 1) = overlap_bug \<and> entered st' = [5]) \<and>
   (\<exists>st'. visit_claim (do_map_bridges 256) 10 10 20 0 crossing_table = Some st' \<and>
      bb_bug (bi_bridges (bus_info st' 10) ! 0) = crossing_bug \<and> entered st' = []) \<and>
   (\<exists>st'. visit_claim (do_map_bridges 256) 0 0 255 0 overlap_table = Some st' \<and>
      bi_via (bus_info st' 5) = Some (0, 0) \<and> (\<exists>es. entered st' = 5 # es))"
proof (intro conjI)
  show "\<exists>st'. visit_claim (do_map_bridges 256) 0 0 255 1 (sign_guestbook overlap_table 5) = Some st' \<and>
      bb_bug (bi_bridges (bus_info st' 0) ! 1) = overlap_bug \<and> entered st' = [5]"
    using visit_claim_cases [of 1 "sign_guestbook overlap_table 5" 0 256 0 255]
    by (simp add: overlap_table_def claim_def Let_def) blast
  show "\<exists>st'. visit_claim (do_map_bridges 256) 10 10 20 0 crossing_table = Some st' \<and>
      bb_bug (bi_bridges (bus_info st' 10) ! 0) = crossing_bug \<and> entered st' = []"
    using visit_claim_cases [of 0 crossing_table 10 256 10 20]
    by (simp add: crossing_table_def claim_def Let_def) blast
  show "\<exists>st'. visit_claim (do_map_bridges 256) 0 0 255 0 overlap_table = Some st' \<and>
      bi_via (bus_info st' 5) = Some (0, 0) \<and> (\<exists>es. entered st' = 5 # es)"
    using visit_claim_cases [of 0 overlap_table 0 256 0 255]
    by (simp add: overlap_table_def claim_def Let_def) blast
qed

section \<open>The prober stays in domain 0\<close>

lemma scan_device_dev: "scan_device L f hw p = Inr (Some d) \<Longrightarrow> dev d = p"
  by (auto simp: scan_device_def Let_def split: if_splits option.splits)

lemma probe_func_cases:
  assumes start: "P st"
    and probe: "\<And>s. P s \<Longrightarrow> P (s\<lparr>probed := probed s @ [pci_get_dev 0 bus dv func]\<rparr>)"
    and exist: "\<And>s. P s \<Longrightarrow> P (s\<lparr>bus_info := (bus_info s)(bus := (bus_info s bus)\<lparr>bi_exists := True\<rparr>)\<rparr>)"
    and dies: "\<And>s. P s \<Longrightarrow> P (s\<lparr>died := True\<rparr>)"
    and bridge: "\<And>s d np ns nl. P s \<Longrightarrow> dev d = pci_get_dev 0 bus dv func \<Longrightarrow>
        pci_get_dev 0 bus dv func \<in> set (probed s) \<Longrightarrow> P (map_bridge env bus d np ns nl s)"
  shows "P (snd (probe_func L env bus dv func func_limit st))"
proof -
  let ?p = "pci_get_dev 0 bus dv func"
  let ?st1 = "st\<lparr>probed := probed st @ [?p]\<rparr>"
  let ?st2 = "?st1\<lparr>bus_info := (bus_info ?st1)(bus := (bus_info ?st1 bus)\<lparr>bi_exists := True\<rparr>)\<rparr>"
  let ?vendor = "pci_read_word env ?p (PCI_VENDOR_ID L)"
  let ?scan = "scan_device L (filter_match env) (pci_read_block env) ?p"
  let ?st' = "snd (probe_func L env bus dv func func_limit st)"
  have p1: "P ?st1" using start by (rule probe)
  have p2: "P ?st2" using p1 by (rule exist)
  have p3: "P (?st2\<lparr>died := True\<rparr>)" using p2 by (rule dies)
  have mem: "?p \<in> set (probed ?st2)" by simp
  have p4: "P (map_bridge env bus d np ns nl ?st2)" if "?scan = Inr (Some d)" for d np ns nl
    using p2 scan_device_dev [OF that] mem by (rule bridge)
  show ?thesis
  proof (cases "died st \<or> \<not> (filter_func env < 0 \<or> filter_func env = int func)")
    case True
    then have "?st' = st" by (auto simp: probe_func_def)
    then show ?thesis using start by simp
  next
    case live: False
    show ?thesis
    proof (cases "?vendor \<noteq> 0 \<and> ?vendor \<noteq> 0xffff")
      case False
      then have "?st' = ?st1" using live by (auto simp: probe_func_def Let_def)
      then show ?thesis using p1 by simp
    next
      case present: True
      show ?thesis
      proof (cases ?scan)
        case (Inl f)
        then have "?st' = ?st2\<lparr>died := True\<rparr>"
          using live present by (cases f) (simp add: probe_func_def Let_def)
        then show ?thesis using p3 by simp
      next
        case (Inr od)
        show ?thesis
        proof (cases od)
          case None
          then have "?st' = ?st2"
            using live present Inr by (simp add: probe_func_def Let_def)
          then show ?thesis using p2 by simp
        next
          case (Some d)
          then have sc: "?scan = Inr (Some d)" using Inr by simp
          let ?ht = "get_conf_byte d (PCI_HEADER_TYPE L) AND 0x7f"
          have eq: "?st' =
            (if ?ht = PCI_HEADER_TYPE_BRIDGE L then
               map_bridge env bus d (PCI_PRIMARY_BUS L) (PCI_SECONDARY_BUS L) (PCI_SUBORDINATE_BUS L) ?st2
             else if ?ht = PCI_HEADER_TYPE_CARDBUS L then
               map_bridge env bus d (PCI_CB_PRIMARY_BUS L) (PCI_CB_CARD_BUS L) (PCI_CB_SUBORDINATE_BUS L) ?st2
             else ?st2)"
            using live present sc by (simp add: probe_func_def Let_def)
          show ?thesis
            unfolding eq using p2 p4 [OF sc] by simp
        qed
      qed
    qed
  qed
qed

declare func_loop.simps [simp del]

lemma func_loop_cases:
  assumes "P st"
    and "\<And>L env bus dv func func_limit s. P s \<Longrightarrow> P (snd (probe_func L env bus dv func func_limit s))"
  shows "P (func_loop L env bus dv func func_limit st)"
  using assms(1)
proof (induction L env bus dv func func_limit st rule: func_loop.induct)
  case (1 L env bus dv func func_limit st)
  show ?case
  proof (cases "func < func_limit")
    case True
    obtain l' st' where pf: "probe_func L env bus dv func func_limit st = (l', st')"
      by (cases "probe_func L env bus dv func func_limit st")
    have "P st'"
      using assms(2) [OF "1.prems", of L env bus dv func func_limit] pf by simp
    then have "P (func_loop L env bus dv (Suc func) l' st')"
      using "1.IH" True pf by simp
    then show ?thesis using True pf by (subst func_loop.simps) simp
  next
    case False
    then show ?thesis using "1.prems" by (subst func_loop.simps) simp
  qed
qed

lemma dev_loop_cases:
  assumes "P st"
    and "\<And>L env bus dv func func_limit s. P s \<Longrightarrow> P (snd (probe_func L env bus dv func func_limit s))"
  shows "P (dev_loop L env bus dvs st)"
  using assms(1)
proof (induction dvs arbitrary: st)
  case Nil
  then show ?case by simp
next
  case (Cons dv dvs)
  have "P (func_loop L env bus dv 0 1 st)"
    using Cons.prems assms(2) by (rule func_loop_cases)
  then show ?case using Cons by simp
qed

lemma bus_loop_cases:
  assumes "P st"
    and "\<And>L env bus dv func func_limit s. P s \<Longrightarrow> P (snd (probe_func L env bus dv func func_limit s))"
  shows "P (bus_loop L env buses st)"
  using assms(1)
proof (induction buses arbitrary: st)
  case Nil
  then show ?case by simp
next
  case (Cons b buses)
  have "P (do_map_bus L env (of_nat b) st)"
    unfolding do_map_bus_def using Cons.prems assms(2) by (rule dev_loop_cases)
  then show ?case using Cons by simp
qed

lemma map_the_bus_probe_cases:
  assumes "P bzero_state"
    and "\<And>L env bus dv func func_limit s. P s \<Longrightarrow> P (snd (probe_func L env bus dv func func_limit s))"
  shows "P (map_the_bus_probe L env)"
proof (cases "filter_bus env \<ge> 0")
  case True
  have "P (do_map_bus L env (word_of_int (filter_bus env)) bzero_state)"
    unfolding do_map_bus_def using assms by (rule dev_loop_cases)
  then show ?thesis using True by (simp add: map_the_bus_probe_def)
next
  case False
  have "P (bus_loop L env [0 ..< 256] bzero_state)"
    using assms by (rule bus_loop_cases)
  then show ?thesis using False by (simp add: map_the_bus_probe_def)
qed

lemma probed_map_bridge [simp]: "probed (map_bridge env bus d np ns nl st) = probed st"
  by (simp add: map_bridge_def Let_def)

lemma bridges_map_bridge:
  "set (bi_bridges (bus_info (map_bridge env bus d np ns nl st) b)) \<subseteq>
     set (bi_bridges (bus_info st b)) \<union> {c. b = bus \<and> bb_dev c = p_dev (dev d) \<and> bb_func c = p_func (dev d)}"
  by (auto simp: map_bridge_def Let_def)

lemma domain0_map_bridge:
  assumes "domain0 st" and "dev d = pci_get_dev 0 bus dv func" and "pci_get_dev 0 bus dv func \<in> set (probed st)"
  shows "domain0 (map_bridge env bus d np ns nl st)"
  unfolding domain0_def
proof (intro conjI allI ballI)
  show "p_domain p = 0" if "p \<in> set (probed (map_bridge env bus d np ns nl st))" for p
    using that assms(1) by (simp add: domain0_def)
  show "\<exists>p \<in> set (probed (map_bridge env bus d np ns nl st)).
      p_bus p = b \<and> p_dev p = bb_dev c \<and> p_func p = bb_func c"
    if "c \<in> set (bi_bridges (bus_info (map_bridge env bus d np ns nl st) b))" for b c
  proof -
    from that bridges_map_bridge [of env bus d np ns nl st b]
    have "c \<in> set (bi_bridges (bus_info st b)) \<or>
        (b = bus \<and> bb_dev c = p_dev (dev d) \<and> bb_func c = p_func (dev d))" by blast
    then show ?thesis
    proof
      assume "c \<in> set (bi_bridges (bus_info st b))"
      then show ?thesis using assms(1) unfolding domain0_def by simp
    next
      assume "b = bus \<and> bb_dev c = p_dev (dev d) \<and> bb_func c = p_func (dev d)"
      moreover have "p_bus (pci_get_dev 0 bus dv func) = bus" by (simp add: pci_get_dev_def)
      ultimately show ?thesis using assms(2,3) by (intro bexI [of _ "pci_get_dev 0 bus dv func"]) simp_all
    qed
  qed
qed

lemma domain0_probe_func:
  assumes "domain0 st"
  shows "domain0 (snd (probe_func L env bus dv func func_limit st))"
  using assms
proof (rule probe_func_cases)
  fix s assume s: "domain0 s"
  show "domain0 (s\<lparr>probed := probed s @ [pci_get_dev 0 bus dv func]\<rparr>)"
    using s unfolding domain0_def by (auto simp: pci_get_dev_def)
  show "domain0 (s\<lparr>bus_info := (bus_info s)(bus := (bus_info s bus)\<lparr>bi_exists := True\<rparr>)\<rparr>)"
    using s unfolding domain0_def by simp
  show "domain0 (s\<lparr>died := True\<rparr>)"
    using s unfolding domain0_def by simp
  show "domain0 (map_bridge env bus d np ns nl s)"
    if "dev d = pci_get_dev 0 bus dv func" "pci_get_dev 0 bus dv func \<in> set (probed s)" for d np ns nl
    using s that by (rule domain0_map_bridge)
qed

lemma untouched_probe_func:
  assumes "untouched st"
  shows "untouched (snd (probe_func L env bus dv func func_limit st))"
  using assms
  by (rule probe_func_cases) (simp_all add: untouched_def map_bridge_def Let_def)

lemma probe_leaves_table_untouched: "untouched (map_the_bus_probe L env)"
proof (rule map_the_bus_probe_cases)
  show "untouched bzero_state" by (simp add: untouched_def bzero_state_def)
qed (rule untouched_probe_func)

text \<open>
  C10. In bus mapping mode every address that \<open>do_map_bus\<close> hands to
  \<open>pci_get_dev\<close> lies in domain 0, whatever the hardware and the filter are, and
  every bridge claim in \<open>bus_info\<close> was read from a probed address of domain 0 on
  that bus: no function of another domain is discovered or enters the records.
\<close>

theorem bus_mapping_probes_domain_0:
  "(\<forall>p \<in> set (probed (map_the_bus_probe L env)). p_domain p = 0) \<and>
   (\<forall>b. \<forall>c \<in> set (bi_bridges (bus_info (map_the_bus_probe L env) b)).
      \<exists>p \<in> set (probed (map_the_bus_probe L env)).
        p_domain p = 0 \<and> p_bus p = b \<and> p_dev p = bb_dev c \<and> p_func p = bb_func c)"
proof -
  have "domain0 bzero_state" by (simp add: domain0_def bzero_state_def)
  then have "domain0 (map_the_bus_probe L env)"
    by (rule map_the_bus_probe_cases) (rule domain0_probe_func)
  then show ?thesis unfolding domain0_def by fast
qed

theorem bus_mapping_probes_domain_0_witness:
  "list_all (\<lambda>p. p_domain p = 0) (probed (map_the_bus_probe pci_header (bridge_env (bridge_dev 0 0 1 0 1 0 1 1)))) \<and>
   probed (map_the_bus_probe pci_header (bridge_env (bridge_dev 0 0 1 0 1 0 1 1))) =
     [\<lparr>p_domain = 0, p_bus = 0, p_dev = 1, p_func = 0\<rparr>] \<and>
   list_all (\<lambda>c. list_ex (\<lambda>p. p_domain p = 0 \<and> p_bus p = 0 \<and> p_dev p = bb_dev c \<and> p_func p = bb_func c)
       (probed (map_the_bus_probe pci_header (bridge_env (bridge_dev 0 0 1 0 1 0 1 1)))))
     (bi_bridges (bus_info (map_the_bus_probe pci_header (bridge_env (bridge_dev 0 0 1 0 1 0 1 1))) 0))"
proof -
  have e: "probed (map_the_bus_probe pci_header (bridge_env (bridge_dev 0 0 1 0 1 0 1 1))) =
     [\<lparr>p_domain = 0, p_bus = 0, p_dev = 1, p_func = 0\<rparr>]"
    by code_simp
  show ?thesis
    using bus_mapping_probes_domain_0 [of pci_header "bridge_env (bridge_dev 0 0 1 0 1 0 1 1)"] e
    unfolding list_all_iff list_ex_iff by blast
qed

section \<open>The whole run of the bus mapping mode\<close>

lemma visit_claim_mono:
  assumes "\<And>s b mn mx r. call s b mn mx = Some r \<Longrightarrow> call' s b mn mx = Some r"
    and "visit_claim call bus mn mx j st = Some r"
  shows "visit_claim call' bus mn mx j st = Some r"
  using assms(2) assms(1)
  by (auto simp: visit_claim_def Let_def split: if_splits)

lemma claims_loop_mono:
  assumes "\<And>s b mn mx r. call s b mn mx = Some r \<Longrightarrow> call' s b mn mx = Some r"
  shows "claims_loop call bus mn mx js st = Some r \<Longrightarrow> claims_loop call' bus mn mx js st = Some r"
proof (induction js arbitrary: st)
  case Nil
  then show ?case by simp
next
  case (Cons j js)
  then obtain st1 where v: "visit_claim call bus mn mx j st = Some st1"
    and l: "claims_loop call bus mn mx js st1 = Some r"
    by (auto split: option.splits)
  have "visit_claim call' bus mn mx j st = Some st1"
    using assms v by (rule visit_claim_mono)
  then show ?case using Cons.IH [OF l] by simp
qed

lemma do_map_bridges_Suc:
  "do_map_bridges n st b mn mx = Some r \<Longrightarrow> do_map_bridges (Suc n) st b mn mx = Some r"
proof (induction n arbitrary: st b mn mx r)
  case 0
  then show ?case by simp
next
  case (Suc n)
  have "claims_loop (do_map_bridges n) b mn mx [0 ..< length (bi_bridges (bus_info st b))]
      (sign_guestbook st b) = Some r"
    using Suc.prems by simp
  then have "claims_loop (do_map_bridges (Suc n)) b mn mx [0 ..< length (bi_bridges (bus_info st b))]
      (sign_guestbook st b) = Some r"
    using Suc.IH by (rule claims_loop_mono [rotated])
  then show ?case by simp
qed

text \<open>The depth does not matter once the call returns: a larger depth gives the same state.\<close>

lemma do_map_bridges_depth:
  "do_map_bridges n st b mn mx = Some r \<Longrightarrow> do_map_bridges (n + k) st b mn mx = Some r"
  by (induction k) (simp_all add: do_map_bridges_Suc del: do_map_bridges.simps)

lemma do_map_bridges_any_depth:
  assumes "256 \<le> n"
  shows "do_map_bridges n st b mn mx = do_map_bridges 256 st b mn mx"
proof -
  obtain r where r: "do_map_bridges 256 st b mn mx = Some r"
    using do_map_bridges_terminates [of 256] by blast
  obtain k where "n = 256 + k" using assms by (metis le_Suc_ex)
  then show ?thesis using do_map_bridges_depth [OF r, of k] r by simp
qed

text \<open>
  The bus mapping mode as a whole returns for every hardware and filter, and no bus is
  entered twice.
\<close>

lemma map_the_bus_terminates:
  assumes "256 \<le> n"
  shows "\<exists>st'. map_the_bus n L env = Some st' \<and> distinct (entered st')"
proof -
  let ?st = "map_the_bus_probe L env"
  have u: "untouched ?st" by (rule probe_leaves_table_untouched)
  then have g: "guest_inv ?st" by (auto simp: untouched_def guest_inv_def unsigned_buses_def)
  show ?thesis
  proof (cases "died ?st")
    case True
    then show ?thesis using u by (simp add: map_the_bus_def untouched_def)
  next
    case False
    from map_bridges_loop_ok [OF assms g, of "[0 ..< 256]"]
    show ?thesis using False by (auto simp: map_the_bus_def map_bridges_def guest_inv_def)
  qed
qed

section \<open>The configuration space cache\<close>

subsection \<open>The two loops and the growth of the buffer\<close>

lemma skip_front_spec:
  assumes "skip_front pr bs pos len = (pos', len')" and "bs < 4294967296"
  shows "pos' + len' = pos + len \<and> pos \<le> pos' \<and>
         (\<forall>i. pos \<le> i \<and> i < pos' \<longrightarrow> i < bs \<and> pr ! i \<noteq> 0) \<and>
         (len' \<noteq> 0 \<longrightarrow> \<not> (pos' < bs \<and> pr ! pos' \<noteq> 0))"
  using assms
proof (induction pr bs pos len rule: skip_front.induct)
  case (1 pr bufsize pos len)
  show ?case
  proof (cases "pos < bufsize \<and> len \<noteq> 0 \<and> pr ! pos \<noteq> 0")
    case True
    then have m: "(pos + 1) mod 4294967296 = pos + 1" using 1(3) by simp
    then have m': "Suc pos mod 4294967296 = Suc pos" by simp
    from True 1(2) have "skip_front pr bufsize (pos + 1) (len - 1) = (pos', len')"
      by (subst (asm) skip_front.simps) (simp add: m')
    with 1(1) True m 1(3) have ih: "pos' + len' = pos + 1 + (len - 1) \<and> pos + 1 \<le> pos' \<and>
         (\<forall>i. pos + 1 \<le> i \<and> i < pos' \<longrightarrow> i < bufsize \<and> pr ! i \<noteq> 0) \<and>
         (len' \<noteq> 0 \<longrightarrow> \<not> (pos' < bufsize \<and> pr ! pos' \<noteq> 0))"
      by simp
    show ?thesis
    proof (intro conjI allI impI)
      show "pos' + len' = pos + len" using ih True by simp
      show "pos \<le> pos'" using ih by simp
      show "i < bufsize" if "pos \<le> i \<and> i < pos'" for i
        using that ih True by (cases "i = pos") auto
      show "pr ! i \<noteq> 0" if "pos \<le> i \<and> i < pos'" for i
        using that ih True by (cases "i = pos") auto
      show "\<not> (pos' < bufsize \<and> pr ! pos' \<noteq> 0)" if "len' \<noteq> 0" using ih that by simp
    qed
  next
    case False
    have "skip_front pr bufsize pos len = (pos, len)"
      by (subst skip_front.simps) (simp only: False if_False)
    with 1(2) have "pos' = pos" "len' = len" by simp_all
    with False show ?thesis by auto
  qed
qed

lemma skip_back_spec:
  assumes "skip_back pr bs pos len = len'" and "pos + len < 4294967296"
  shows "len' \<le> len \<and>
         (\<forall>i. pos + len' \<le> i \<and> i < pos + len \<longrightarrow> i < bs \<and> pr ! i \<noteq> 0) \<and>
         (len' \<noteq> 0 \<longrightarrow> \<not> (pos + len' - 1 < bs \<and> pr ! (pos + len' - 1) \<noteq> 0))"
  using assms
proof (induction pr bs pos len rule: skip_back.induct)
  case (1 pr bufsize pos len)
  have m1: "(pos + len) mod 4294967296 = pos + len" using 1(3) by simp
  have m2: "len \<noteq> 0 \<Longrightarrow> (pos + len + 4294967295) mod 4294967296 = pos + len - 1"
  proof -
    assume "len \<noteq> 0"
    then have "pos + len + 4294967295 = (pos + len - 1) + 4294967296" by simp
    then have "(pos + len + 4294967295) mod 4294967296 = (pos + len - 1) mod 4294967296"
      by (simp only: mod_add_self2)
    then show ?thesis using 1(3) by simp
  qed
  show ?case
  proof (cases "pos + len \<le> bufsize \<and> len \<noteq> 0 \<and> pr ! (pos + len - 1) \<noteq> 0")
    case True
    from True 1(2) have "skip_back pr bufsize pos (len - 1) = len'"
      by (subst (asm) skip_back.simps) (simp add: m1 m2)
    with 1(1) True m1 m2 1(3) have ih: "len' \<le> len - 1 \<and>
         (\<forall>i. pos + len' \<le> i \<and> i < pos + (len - 1) \<longrightarrow> i < bufsize \<and> pr ! i \<noteq> 0) \<and>
         (len' \<noteq> 0 \<longrightarrow> \<not> (pos + len' - 1 < bufsize \<and> pr ! (pos + len' - 1) \<noteq> 0))"
      by simp
    show ?thesis
    proof (intro conjI allI impI)
      from ih have "len' \<le> len - 1" by blast
      then show "len' \<le> len" by simp
      show "i < bufsize" if "pos + len' \<le> i \<and> i < pos + len" for i
        using that ih True by (cases "i = pos + len - 1") auto
      show "pr ! i \<noteq> 0" if "pos + len' \<le> i \<and> i < pos + len" for i
        using that ih True by (cases "i = pos + len - 1") auto
      show "\<not> (pos + len' - 1 < bufsize \<and> pr ! (pos + len' - 1) \<noteq> 0)" if "len' \<noteq> 0"
        using ih that by simp
    qed
  next
    case False
    have c: "\<not> ((pos + len) mod 4294967296 \<le> bufsize \<and> len \<noteq> 0 \<and>
         pr ! ((pos + len + 4294967295) mod 4294967296) \<noteq> 0)"
      using False m1 m2 by (cases "len = 0") auto
    have "skip_back pr bufsize pos len = len"
      by (subst skip_back.simps) (simp only: c if_False)
    with 1(2) have "len' = len" by simp
    with False show ?thesis by auto
  qed
qed

lemma grow_bufsize_terminates:
  assumes "0 < bs" and "e \<le> 2147483648" and "bs < 4294967296"
  shows "\<exists>bs'. grow_bufsize e bs = Some bs' \<and> e \<le> bs' \<and> bs \<le> bs' \<and> bs' < 4294967296"
  using assms
proof (induction "e - bs" arbitrary: bs rule: less_induct)
  case less
  show ?case
  proof (cases "bs < e")
    case True
    then have m: "bs * 2 mod 4294967296 = bs * 2" using less.prems by simp
    have "\<exists>bs'. grow_bufsize e (bs * 2) = Some bs' \<and> e \<le> bs' \<and> bs * 2 \<le> bs' \<and> bs' < 4294967296"
      using less.prems True by (intro less.hyps) auto
    then show ?thesis using True by (subst grow_bufsize.simps) (auto simp: m)
  next
    case False
    then show ?thesis using less.prems by (subst grow_bufsize.simps) simp
  qed
qed

lemma filter_upt_empty: "(filter P [a..<b] = []) = (\<forall>i. a \<le> i \<and> i < b \<longrightarrow> \<not> P i)"
  by (auto simp: filter_empty_conv)

lemma filter_upt_hd:
  assumes "a \<le> p" "p < b" "P p" "\<forall>i. a \<le> i \<and> i < p \<longrightarrow> \<not> P i"
  shows "hd (filter P [a..<b]) = p"
proof -
  have "[a..<b] = [a..<p] @ [p..<b]"
    using upt_add_eq_append [of a p "b - p"] assms(1,2) by simp
  moreover have "[p..<b] = p # [Suc p..<b]" using assms(2) by (simp add: upt_conv_Cons)
  ultimately have "[a..<b] = [a..<p] @ p # [Suc p..<b]" by simp
  moreover have "filter P [a..<p] = []" using assms(4) by (auto simp: filter_empty_conv)
  ultimately show ?thesis using assms(3) by simp
qed

lemma filter_upt_last:
  assumes "a \<le> q" "q < b" "P q" "\<forall>i. q < i \<and> i < b \<longrightarrow> \<not> P i"
  shows "last (filter P [a..<b]) = q"
proof -
  have "[a..<b] = [a..<q] @ [q..<b]"
    using upt_add_eq_append [of a q "b - q"] assms(1,2) by simp
  moreover have "[q..<b] = q # [Suc q..<b]" using assms(2) by (simp add: upt_conv_Cons)
  ultimately have "[a..<b] = [a..<q] @ q # [Suc q..<b]" by simp
  moreover have "filter P [Suc q..<b] = []" using assms(4) by (auto simp: filter_empty_conv)
  ultimately show ?thesis using assms(3) by simp
qed


lemma memset_length: "pos + len \<le> length xs \<Longrightarrow> length (memset xs pos v len) = length xs"
  by (simp add: memset_def)

lemma memset_nth:
  "pos + len \<le> length xs \<Longrightarrow> i < length xs \<Longrightarrow>
   memset xs pos v len ! i = (if pos \<le> i \<and> i < pos + len then v else xs ! i)"
  by (auto simp: memset_def nth_append)

lemma store_block_length: "length (store_block cfg pos bs) = length cfg"
  by (simp add: store_block_def)

lemma missing_empty: "(missing d pos len = []) = (\<forall>i. pos \<le> i \<and> i < pos + len \<longrightarrow> cached d i)"
  by (auto simp: missing_def filter_empty_conv)

lemma config_fetch_adna_hull:
  assumes wf: "well_formed d" and rng: "pos + len \<le> 2147483648"
  shows "\<exists>r d'. config_fetch_adna hw d pos len = Some (r, d', hull (missing d pos len)) \<and>
           (missing d pos len = [] \<longrightarrow> r \<and> d' = d) \<and>
           (r \<longrightarrow> missing d' pos len = []) \<and>
           (\<forall>i. cached d i \<longrightarrow> cached d' i) \<and> well_formed d'"
proof -
  let ?pr = "present d" and ?bs = "config_bufsize d"
  from wf have bs: "?bs < 4294967296" "0 < ?bs" "length ?pr = ?bs" "length (cd_config d) = ?bs"
    by (simp_all add: well_formed_def)
  obtain p l1 where sf: "skip_front ?pr ?bs pos len = (p, l1)" by (cases "skip_front ?pr ?bs pos len")
  define l where "l = skip_back ?pr ?bs p l1"
  from skip_front_spec [OF sf bs(1)]
  have f: "p + l1 = pos + len" "pos \<le> p" "\<And>i. pos \<le> i \<Longrightarrow> i < p \<Longrightarrow> cached d i"
    "l1 \<noteq> 0 \<Longrightarrow> \<not> cached d p"
    by (auto simp: cached_def)
  have "p + l1 < 4294967296" using f(1) rng by simp
  from skip_back_spec [OF l_def [symmetric] this]
  have b: "l \<le> l1" "\<And>i. p + l \<le> i \<Longrightarrow> i < p + l1 \<Longrightarrow> cached d i"
    "l \<noteq> 0 \<Longrightarrow> \<not> cached d (p + l - 1)"
    by (auto simp: cached_def)
  have e: "(pos + len) mod 4294967296 = pos + len" using rng by simp
  show ?thesis
  proof (cases "l = 0")
    case True
    have all: "\<forall>i. pos \<le> i \<and> i < pos + len \<longrightarrow> cached d i"
    proof (intro allI impI)
      fix i assume i: "pos \<le> i \<and> i < pos + len"
      show "cached d i"
      proof (cases "i < p")
        case True with i f(3) show ?thesis by simp
      next
        case False with i b(2) [of i] f(1) \<open>l = 0\<close> show ?thesis by simp
      qed
    qed
    then have m: "missing d pos len = []" by (simp add: missing_empty)
    have "config_fetch_adna hw d pos len = Some (True, d, [])"
      using True by (simp add: config_fetch_adna_def sf l_def [symmetric] Let_def)
    then have "config_fetch_adna hw d pos len = Some (True, d, hull (missing d pos len))"
      using m by (simp add: hull_def)
    then show ?thesis using m wf by blast
  next
    case False
    then have l1: "l1 \<noteq> 0" using b(1) by auto
    have np: "\<not> cached d p" using f(4) l1 by simp
    have nq: "\<not> cached d (p + l - 1)" using b(3) False by simp
    have hd: "hd (missing d pos len) = p"
      unfolding missing_def using f l1 np by (intro filter_upt_hd) auto
    have lst: "last (missing d pos len) = p + l - 1"
      unfolding missing_def
    proof (intro filter_upt_last)
      show "pos \<le> p + l - 1" using f(2) False by simp
      show "p + l - 1 < pos + len" using b(1) f(1) False by simp
      show "\<not> cached d (p + l - 1)" by (rule nq)
      show "\<forall>i. p + l - 1 < i \<and> i < pos + len \<longrightarrow> \<not> \<not> cached d i"
        using b(2) f(1) by auto
    qed
    have ne: "missing d pos len \<noteq> []"
      using np f(1,2) l1 by (auto simp: missing_empty intro!: exI [of _ p])
    have h: "hull (missing d pos len) = [(p, l)]"
      using ne hd lst False by (simp add: hull_def)
    obtain bs' where g: "grow_bufsize (pos + len) ?bs = Some bs'" "pos + len \<le> bs'" "?bs \<le> bs'"
      "bs' < 4294967296"
      using grow_bufsize_terminates [OF bs(2) rng bs(1)] by blast
    define d1 where "d1 = d\<lparr>config_bufsize := bs',
        cd_config := cd_config d @ replicate (bs' - ?bs) 0,
        present := present d @ replicate (bs' - ?bs) 0\<rparr>"
    have wf1: "well_formed d1" using bs g by (simp add: well_formed_def d1_def)
    have keep1: "cached d1 i" if "cached d i" for i
      using that g(3) bs(3) by (auto simp: cached_def d1_def nth_append)
    show ?thesis
    proof (cases "hw (cd_dev d) p l")
      case None
      have "config_fetch_adna hw d pos len = Some (False, d1, [(p, l)])"
        using False None g(1)
        by (simp add: config_fetch_adna_def sf l_def [symmetric] Let_def e d1_def)
      then have "config_fetch_adna hw d pos len = Some (False, d1, hull (missing d pos len))"
        using h by simp
      then show ?thesis using ne wf1 keep1 by blast
    next
      case (Some blk)
      define d2 where "d2 = d1\<lparr>cd_config := store_block (cd_config d1) p blk,
          present := memset (present d1) p 1 l\<rparr>"
      have fit: "p + l \<le> length (present d1)"
        using b(1) f(1) g(2) bs(3) g(3) by (simp add: d1_def)
      have len1: "length (present d1) = bs'" using bs(3) g(3) by (simp add: d1_def)
      have wf2: "well_formed d2"
        using wf1 fit by (simp add: well_formed_def d2_def memset_length store_block_length)
      have bs2: "config_bufsize d2 = bs'" by (simp add: d2_def d1_def)
      have pr2: "present d2 ! i = (if p \<le> i \<and> i < p + l then 1 else present d1 ! i)"
        if "i < bs'" for i
        using that fit len1 by (simp add: d2_def memset_nth)
      have keep2: "cached d2 i" if "cached d i" for i
      proof -
        from keep1 [OF that] have "i < bs'" "present d1 ! i \<noteq> 0" by (simp_all add: cached_def d1_def)
        then show ?thesis using pr2 [of i] bs2 by (simp add: cached_def)
      qed
      have full: "cached d2 i" if "pos \<le> i \<and> i < pos + len" for i
      proof (cases "p \<le> i \<and> i < p + l")
        case True
        then have "i < bs'" using b(1) f(1) g(2) by simp
        then show ?thesis using pr2 [of i] True bs2 by (simp add: cached_def)
      next
        case False
        then have "cached d i" using that f(3) [of i] b(2) [of i] f(1) by auto
        then show ?thesis by (rule keep2)
      qed
      have "config_fetch_adna hw d pos len = Some (True, d2, [(p, l)])"
        using \<open>l \<noteq> 0\<close> Some g(1)
        by (simp add: config_fetch_adna_def sf l_def [symmetric] Let_def e d1_def d2_def)
      then have "config_fetch_adna hw d pos len = Some (True, d2, hull (missing d pos len))"
        using h by simp
      moreover have "missing d2 pos len = []" using full by (simp add: missing_empty)
      ultimately show ?thesis using ne wf2 keep2 by blast
    qed
  qed
qed

lemmas adna_eval = config_fetch_adna_def skip_front.simps skip_back.simps grow_bufsize.simps
  hw_zero_def memset_def store_block_def scan_device_adna_def replicate_add [symmetric] nth_append

lemma empty_cache_run:
  "config_fetch_adna hw_zero empty_cache 0 64 = Some (True, cache_0_64, [(0, 64)]) \<and>
   config_fetch_adna hw_zero cache_0_64 32 64 = Some (True, cache_0_96, [(64, 32)]) \<and>
   missing cache_0_96 0 96 = []"
  by (simp add: adna_eval empty_cache_def cache_0_64_def cache_0_96_def missing_def cached_def
      filter_empty_conv)

lemma cache_0_64_missing: "hull (missing cache_0_64 32 64) = [(64, 32)]"
  by code_simp

lemma cache_0_64_well_formed: "well_formed cache_0_64"
  by (simp add: well_formed_def cache_0_64_def empty_cache_def)

subsection \<open>What a fetch asks the hardware for\<close>

text \<open>
  C6. A fetch sends at most one request to the hardware. In lspci.c it sends none
  when \<open>pos + len < config_cnt\<close>; when \<open>pos + len > config_cnt\<close> it sends one for
  the whole range \<open>[pos, pos + len)\<close>, cached bytes included; and no fetch advances
  \<open>config_cnt\<close>. In the adna tool it sends none when every byte of the range is
  present, and otherwise one request that reaches from the first missing byte of the
  range to the last one, present bytes in between included; a fetch that succeeds
  leaves every byte of the range present, and no fetch forgets a byte.
\<close>

theorem config_fetch_requests:
  "(pos + len < config_cnt d \<longrightarrow> config_fetch hw d pos len = (True, d, [])) \<and>
   (config_cnt d < pos + len \<longrightarrow> snd (snd (config_fetch hw d pos len)) = [(unat pos, unat len)]) \<and>
   config_cnt (fst (snd (config_fetch hw d pos len))) = config_cnt d \<and>
   (well_formed c \<and> p + l \<le> 2147483648 \<longrightarrow>
      (\<exists>r c'. config_fetch_adna hw c p l = Some (r, c', hull (missing c p l)) \<and>
         (missing c p l = [] \<longrightarrow> r \<and> c' = c) \<and>
         (r \<longrightarrow> missing c' p l = []) \<and>
         (\<forall>i. cached c i \<longrightarrow> cached c' i) \<and> well_formed c'))"
proof (intro conjI impI)
  show "config_fetch hw d pos len = (True, d, [])" if "pos + len < config_cnt d"
    using that by (simp add: config_fetch_def)
  show "snd (snd (config_fetch hw d pos len)) = [(unat pos, unat len)]" if "config_cnt d < pos + len"
    using that by (auto simp: config_fetch_def split: option.splits)
  show "config_cnt (fst (snd (config_fetch hw d pos len))) = config_cnt d"
    by (auto simp: config_fetch_def split: option.splits)
  show "\<exists>r c'. config_fetch_adna hw c p l = Some (r, c', hull (missing c p l)) \<and>
         (missing c p l = [] \<longrightarrow> r \<and> c' = c) \<and>
         (r \<longrightarrow> missing c' p l = []) \<and>
         (\<forall>i. cached c i \<longrightarrow> cached c' i) \<and> well_formed c'"
    if "well_formed c \<and> p + l \<le> 2147483648"
    using that config_fetch_adna_hull [of c p l hw] by blast
qed

theorem config_fetch_requests_witness:
  "config_fetch hw_zero scanned0 0 32 = (True, scanned0, []) \<and>
   snd (snd (config_fetch hw_zero scanned0 32 64)) = [(32, 64)] \<and>
   config_cnt (fst (snd (config_fetch hw_zero scanned0 32 64))) = 64 \<and>
   well_formed cache_0_64 \<and> (32::nat) + 64 \<le> 2147483648 \<and>
   (\<exists>c'. config_fetch_adna hw_zero cache_0_64 32 64 = Some (True, c', [(64, 32)]) \<and>
      missing c' 32 64 = [] \<and> well_formed c')"
proof -
  note th = config_fetch_requests [of 0 32 scanned0 hw_zero cache_0_64 32 64]
    config_fetch_requests [of 32 64 scanned0 hw_zero cache_0_64 32 64]
  have "config_fetch hw_zero scanned0 0 32 = (True, scanned0, [])"
    using th(1) by (simp add: scanned0_def)
  moreover have "snd (snd (config_fetch hw_zero scanned0 32 64)) = [(32, 64)]"
    using th(2) by (simp add: scanned0_def)
  moreover have "config_cnt (fst (snd (config_fetch hw_zero scanned0 32 64))) = 64"
    using th(2) by (simp add: scanned0_def)
  moreover have "\<exists>c'. config_fetch_adna hw_zero cache_0_64 32 64 = Some (True, c', [(64, 32)]) \<and>
      missing c' 32 64 = [] \<and> well_formed c'"
    using th(1) empty_cache_run cache_0_64_missing cache_0_64_well_formed by auto
  ultimately show ?thesis using cache_0_64_well_formed by simp
qed

text \<open>
  The claim as the specification states it fails in both programs. In lspci.c, on a
  device whose 64-byte header \<open>scan_device\<close> has read, the fetch of \<open>[0, 64)\<close> asks
  the hardware again for all 64 cached bytes, and the fetch of \<open>[32, 96)\<close> that
  follows asks for \<open>[32, 96)\<close>, not for \<open>[64, 96)\<close>. In the adna tool
  \<open>scan_device\<close> has read 256 bytes, so neither fetch asks for anything; and after a
  fetch of \<open>[260, 264)\<close> the fetch of \<open>[256, 268)\<close> asks for all twelve bytes, the
  cached byte 261 among them.
\<close>

theorem config_fetch_rerequests_counterexample:
  "scan_device pci_header (\<lambda>p. True) hw_zero dev0 = Inr (Some scanned0) \<and>
   config_fetch hw_zero scanned0 0 64 = (True, scanned0, [(0, 64)]) \<and>
   config_fetch hw_zero scanned0 32 64 = (True, scanned0, [(32, 64)]) \<and>
   snd (snd (config_fetch hw_zero scanned0 32 64)) \<noteq> [(64, 32)] \<and>
   scan_device_adna (\<lambda>p. True) False (\<lambda>p. True) hw_zero dev0 = Some scanned_adna \<and>
   config_fetch_adna hw_zero scanned_adna 0 64 = Some (True, scanned_adna, []) \<and>
   config_fetch_adna hw_zero scanned_adna 32 64 = Some (True, scanned_adna, []) \<and>
   config_fetch_adna hw_zero scanned_adna 260 4 = Some (True, holed, [(260, 4)]) \<and>
   cached holed 261 \<and>
   map_option (\<lambda>(r, d, q). q) (config_fetch_adna hw_zero holed 256 12) = Some [(256, 12)]"
proof -
  have "scan_device pci_header (\<lambda>p. True) hw_zero dev0 = Inr (Some scanned0) \<and>
   config_fetch hw_zero scanned0 0 64 = (True, scanned0, [(0, 64)]) \<and>
   config_fetch hw_zero scanned0 32 64 = (True, scanned0, [(32, 64)]) \<and>
   snd (snd (config_fetch hw_zero scanned0 32 64)) \<noteq> [(64, 32)]"
    by (simp add: scan_device_def pci_header_def config_fetch_def hw_zero_def store_block_def
        scanned0_def replicate_add [symmetric])
  moreover have "scan_device_adna (\<lambda>p. True) False (\<lambda>p. True) hw_zero dev0 = Some scanned_adna \<and>
   config_fetch_adna hw_zero scanned_adna 0 64 = Some (True, scanned_adna, []) \<and>
   config_fetch_adna hw_zero scanned_adna 32 64 = Some (True, scanned_adna, []) \<and>
   config_fetch_adna hw_zero scanned_adna 260 4 = Some (True, holed, [(260, 4)]) \<and>
   cached holed 261 \<and>
   map_option (\<lambda>(r, d, q). q) (config_fetch_adna hw_zero holed 256 12) = Some [(256, 12)]"
    by (simp add: adna_eval scanned_adna_def holed_def cached_def)
  ultimately show ?thesis by blast
qed

text \<open>
  C9. With four \<open>-x\<close> switches \<open>show_hex_dump\<close> hands \<open>d->config + 256\<close> to the
  hardware as a buffer of 3840 bytes and then reads \<open>d->config[i]\<close> up to
  \<open>i = 4095\<close>: both leave the 256-byte array.
\<close>

theorem show_hex_dump_overruns_config:
  "Write 256 3840 \<in> set (show_hex_dump hw_zero 4 scanned0) \<and> \<not> in_bounds (Write 256 3840) \<and>
   Read 4095 1 \<in> set (show_hex_dump hw_zero 4 scanned0) \<and> \<not> in_bounds (Read 4095 1)"
  by (simp add: show_hex_dump_def config_fetch_def hw_zero_def scanned0_def image_iff)

section \<open>The chain of bridges and the tree\<close>

lemma ucast_byte_le: "(ucast (x :: byte) :: u32) \<le> 255"
proof -
  have lt: "unat x < 256" using unsigned_less [of x, where ?'a = nat] by simp
  have "unat (ucast x :: u32) = take_bit 32 (unat x)" by (simp add: unsigned_ucast_eq)
  also have "\<dots> = unat x" using lt by (simp add: take_bit_nat_eq_self)
  finally show ?thesis using lt by (simp add: word_le_nat_alt)
qed

lemma not_all_le: "(x :: u32) \<le> 255 \<Longrightarrow> \<not> (NOT 0 \<le> x)"
  by (simp add: word_le_nat_alt unsigned_minus_1_eq_mask mask_eq_exp_minus_1)

lemma dev_less_irrefl: "\<not> dev_less d d"
  by (simp add: dev_less_def)

lemma sorted_registry_distinct: "sorted_wrt dev_less ds \<Longrightarrow> distinct ds"
  by (induction ds) (auto simp: dev_less_irrefl)

lemma new_bridge_subordinate: "subordinate (new_bridge L d) \<le> 255"
  by (simp add: new_bridge_def Let_def ucast_byte_le)

lemma build_bridges_subordinate: "b \<in> set (build_bridges L ds) \<Longrightarrow> subordinate b \<le> 255"
  by (induction ds) (auto simp: new_bridge_subordinate split: if_splits)

lemma build_bridges_nth_subordinate:
  "i < length (build_bridges L ds) \<Longrightarrow> subordinate (build_bridges L ds ! i) \<le> 255"
  using build_bridges_subordinate nth_mem by blast

lemma hosted_chain: "hosted (bridge_chain L ds)"
  unfolding hosted_def bridge_chain_def
  by (auto simp: host_bridge_def build_bridges_nth_subordinate nth_Cons split: nat.split)

lemma find_best_keeps_host:
  "subordinate (chain ! 0) - primary (chain ! 0) = 0 \<Longrightarrow> find_best chain b cs (Some 0) = Some 0"
  by (induction cs) simp_all

lemma find_best_picks_host:
  assumes "hosted chain" and "0 < b"
  shows "find_best chain b [0 ..< length chain] None = Some 0"
proof -
  have l: "[0 ..< length chain] = 0 # [1 ..< length chain]"
    using assms(1) by (simp add: hosted_def upt_conv_Cons)
  have z: "subordinate (chain ! 0) - primary (chain ! 0) = 0"
    using assms(1) by (simp add: hosted_def)
  have "primary (chain ! b) \<le> subordinate (chain ! 0)"
    using assms(1) by (simp add: hosted_def)
  then show ?thesis
    using assms l find_best_keeps_host [OF z] by (simp add: hosted_def)
qed

lemma find_best_host_orphan:
  assumes "hosted chain"
  shows "set cs \<subseteq> {..< length chain} \<Longrightarrow> find_best chain 0 cs None = None"
proof (induction cs)
  case Nil
  then show ?case by simp
next
  case (Cons c cs)
  have "\<not> primary (chain ! 0) \<le> subordinate (chain ! c)" if "c \<noteq> 0"
  proof -
    have "subordinate (chain ! c) \<le> 255" using assms Cons.prems that by (simp add: hosted_def)
    moreover have "primary (chain ! 0) = NOT 0" using assms by (simp add: hosted_def)
    ultimately show ?thesis using not_all_le by simp
  qed
  then show ?case using Cons by auto
qed

lemma attach_child:
  assumes "hosted chain" and "0 < b"
  shows "attach chain b = chain[0 := (chain ! 0)\<lparr>child := b # child (chain ! 0)\<rparr>]"
  using find_best_picks_host [OF assms] by (simp add: attach_def)

lemma attach_host:
  assumes "hosted chain"
  shows "attach chain 0 = chain"
proof -
  have "set [0 ..< length chain] \<subseteq> {..< length chain}" by auto
  from find_best_host_orphan [OF assms this] show ?thesis by (simp add: attach_def)
qed

lemma hosted_update:
  "hosted chain \<Longrightarrow> hosted (chain[0 := (chain ! 0)\<lparr>child := cs\<rparr>])"
  by (auto simp: hosted_def nth_list_update)

lemma link_bridges_children:
  "hosted chain \<Longrightarrow> \<forall>b \<in> set bs. 0 < b \<Longrightarrow>
   link_bridges chain bs = chain[0 := (chain ! 0)\<lparr>child := rev bs @ child (chain ! 0)\<rparr>]"
proof (induction bs arbitrary: chain)
  case Nil
  then show ?case by (simp add: hosted_def)
next
  case (Cons b bs)
  let ?c1 = "chain[0 := (chain ! 0)\<lparr>child := b # child (chain ! 0)\<rparr>]"
  have a: "attach chain b = ?c1" using Cons.prems by (simp add: attach_child)
  have h: "hosted ?c1" using Cons.prems(1) by (rule hosted_update)
  have "link_bridges ?c1 bs = ?c1[0 := (?c1 ! 0)\<lparr>child := rev bs @ child (?c1 ! 0)\<rparr>]"
    using Cons.IH [OF h] Cons.prems(2) by simp
  then show ?case using a Cons.prems(1) by (simp add: hosted_def)
qed

lemma create_tree_flat:
  assumes "hosted chain" and "child (chain ! 0) = []"
  shows "create_tree chain = chain[0 := (chain ! 0)\<lparr>child := rev [1 ..< length chain]\<rparr>]"
proof -
  have l: "[0 ..< length chain] = 0 # [1 ..< length chain]"
    using assms(1) by (simp add: hosted_def upt_conv_Cons)
  show ?thesis
    unfolding create_tree_def l
    using link_bridges_children [OF assms(1), of "[1 ..< length chain]"] assms
    by (simp add: attach_host)
qed

lemma find_bus_None_iff: "find_bus us dm nr = None \<longleftrightarrow> (dm, nr) \<notin> bus_key ` set us"
  by (induction us) (auto simp: bus_key_def)

lemma find_bus_Some:
  "find_bus us dm nr = Some k \<Longrightarrow>
     k < length us \<and> bus_key (us ! k) = (dm, nr) \<and> (\<forall>j < k. bus_key (us ! j) \<noteq> (dm, nr))"
proof (induction us arbitrary: k)
  case Nil
  then show ?case by simp
next
  case (Cons u us)
  show ?case
  proof (cases "bus_domain u = dm \<and> number u = nr")
    case True
    then show ?thesis using Cons.prems by (auto simp: bus_key_def)
  next
    case False
    then obtain k' where k: "find_bus us dm nr = Some k'" "k = Suc k'"
      using Cons.prems by auto
    from Cons.IH [OF k(1)] False k(2) show ?thesis
      by (auto simp: bus_key_def nth_Cons split: nat.split)
  qed
qed

lemma find_child_Some: "find_child t cs dm nr = Some c \<Longrightarrow> c \<in> set cs"
  by (induction cs) (auto split: if_splits)

lemma find_child_cong:
  "(\<And>c. c \<in> set cs \<Longrightarrow> br_domain (t' ! c) = br_domain (t ! c) \<and>
      secondary (t' ! c) = secondary (t ! c) \<and> subordinate (t' ! c) = subordinate (t ! c)) \<Longrightarrow>
   find_child t' cs dm nr = find_child t cs dm nr"
  by (induction cs) auto

lemma bridge_insert_fields [simp]:
  "child (bridge_insert b d) = child b"
  "br_domain (bridge_insert b d) = br_domain b"
  "secondary (bridge_insert b d) = secondary b"
  "subordinate (bridge_insert b d) = subordinate b"
  by (simp_all add: bridge_insert_def split: option.split)

lemma insert_dev_Suc:
  "insert_dev (Suc n) t d b =
     (case find_bus (first_bus (t ! b)) (fst (dev_key d)) (snd (dev_key d)) of
        Some k \<Rightarrow> Some (append_dev t b k d)
      | None \<Rightarrow>
          (case find_child t (child (t ! b)) (fst (dev_key d)) (snd (dev_key d)) of
             Some c \<Rightarrow> insert_dev n t d c
           | None \<Rightarrow> Some (append_dev (t[b := new_bus (t ! b) (fst (dev_key d)) (snd (dev_key d))]) b 0 d)))"
  unfolding dev_key_def fst_conv snd_conv by (simp add: Let_def)

lemma insert_dev_here:
  assumes "b < length t" and "child (t ! b) = []"
  shows "insert_dev (Suc n) t d b = Some (place t b d)"
proof (cases "find_bus (first_bus (t ! b)) (fst (dev_key d)) (snd (dev_key d))")
  case None
  then show ?thesis using assms
    by (simp add: insert_dev_Suc place_def bridge_insert_def append_dev_def new_bus_def Let_def del: insert_dev.simps)
next
  case (Some k)
  then show ?thesis using assms
    by (simp add: insert_dev_Suc place_def bridge_insert_def append_dev_def Let_def del: insert_dev.simps)
qed

lemma route_less: "flat_tree t \<Longrightarrow> route t k < length t"
  by (auto simp: route_def flat_tree_def split: option.split dest!: find_child_Some)

lemma insert_dev_flat:
  assumes "flat_tree t"
  shows "insert_dev (Suc (Suc n)) t d 0 = Some (place t (route t (dev_key d)) d)"
proof (cases "find_bus (first_bus (t ! 0)) (fst (dev_key d)) (snd (dev_key d))")
  case (Some k)
  then have "dev_key d \<in> bus_key ` set (first_bus (t ! 0))"
    using find_bus_None_iff [of "first_bus (t ! 0)" "fst (dev_key d)" "snd (dev_key d)"] by simp
  then have r: "route t (dev_key d) = 0" by (simp add: route_def)
  show ?thesis using Some assms
    by (simp add: insert_dev_Suc r place_def bridge_insert_def append_dev_def Let_def del: insert_dev.simps)
next
  case None
  then have nk: "dev_key d \<notin> bus_key ` set (first_bus (t ! 0))"
    using find_bus_None_iff [of "first_bus (t ! 0)" "fst (dev_key d)" "snd (dev_key d)"] by simp
  show ?thesis
  proof (cases "find_child t (child (t ! 0)) (fst (dev_key d)) (snd (dev_key d))")
    case nc: None
    then have r: "route t (dev_key d) = 0" using nk by (simp add: route_def)
    have "t \<noteq> []" using assms by (simp add: flat_tree_def)
    then show ?thesis using None nc
      by (simp add: insert_dev_Suc r place_def bridge_insert_def append_dev_def new_bus_def Let_def del: insert_dev.simps)
  next
    case (Some c)
    then have r: "route t (dev_key d) = c" using nk by (simp add: route_def)
    have "c \<in> set (child (t ! 0))" using Some by (rule find_child_Some)
    then have c: "c < length t" "child (t ! c) = []"
      using assms by (auto simp: flat_tree_def)
    have "insert_dev (Suc (Suc n)) t d 0 = insert_dev (Suc n) t d c"
      using None Some by (simp add: insert_dev_Suc [of "Suc n"] del: insert_dev.simps)
    then show ?thesis using insert_dev_here [OF c] r by simp
  qed
qed

lemma devs_at_update:
  assumes "distinct (map bus_key us)" and "j < length us" and "bus_key (us ! j) = k0"
  shows "concat (map devs (filter (\<lambda>u. bus_key u = k) (us[j := (us ! j)\<lparr>devs := devs (us ! j) @ [d]\<rparr>]))) =
     (if k = k0 then concat (map devs (filter (\<lambda>u. bus_key u = k) us)) @ [d]
      else concat (map devs (filter (\<lambda>u. bus_key u = k) us)))"
  using assms
proof (induction us arbitrary: j)
  case Nil
  then show ?case by simp
next
  case (Cons u us)
  show ?case
  proof (cases j)
    case 0
    have "filter (\<lambda>v. bus_key v = bus_key u) us = []"
      using Cons.prems(1) by (auto simp: filter_empty_conv image_iff)
    moreover have "bus_key (u\<lparr>devs := devs u @ [d]\<rparr>) = bus_key u" by (simp add: bus_key_def)
    ultimately show ?thesis using 0 Cons.prems by auto
  next
    case (Suc j')
    have "us ! j' \<in> set us" using Cons.prems Suc by simp
    then have "bus_key (us ! j') \<in> bus_key ` set us" by (rule imageI)
    then have ne: "bus_key u \<noteq> k0" using Cons.prems Suc by auto
    have "concat (map devs (filter (\<lambda>u. bus_key u = k) (us[j' := (us ! j')\<lparr>devs := devs (us ! j') @ [d]\<rparr>]))) =
     (if k = k0 then concat (map devs (filter (\<lambda>u. bus_key u = k) us)) @ [d]
      else concat (map devs (filter (\<lambda>u. bus_key u = k) us)))"
      using Cons.IH [of j'] Cons.prems Suc by simp
    then show ?thesis using Suc ne by auto
  qed
qed

lemma keys_update:
  "j < length us \<Longrightarrow>
   map bus_key (us[j := (us ! j)\<lparr>devs := ds\<rparr>]) = map bus_key us"
  by (simp add: list_eq_iff_nth_eq nth_list_update bus_key_def)

lemma bridge_insert_keys:
  "map bus_key (first_bus (bridge_insert b d)) =
     (if dev_key d \<in> bridge_keys b then map bus_key (first_bus b)
      else dev_key d # map bus_key (first_bus b))"
proof (cases "find_bus (first_bus b) (fst (dev_key d)) (snd (dev_key d))")
  case None
  then have "dev_key d \<notin> bridge_keys b"
    using find_bus_None_iff [of "first_bus b" "fst (dev_key d)" "snd (dev_key d)"]
    by (simp add: bridge_keys_def)
  then show ?thesis using None by (simp add: bridge_insert_def bus_key_def)
next
  case (Some j)
  then have "dev_key d \<in> bridge_keys b"
    using find_bus_None_iff [of "first_bus b" "fst (dev_key d)" "snd (dev_key d)"]
    by (simp add: bridge_keys_def)
  moreover have "j < length (first_bus b)" using find_bus_Some [OF Some] by simp
  ultimately show ?thesis using Some by (simp add: bridge_insert_def keys_update)
qed

lemma bridge_insert_keys_set: "bridge_keys (bridge_insert b d) = insert (dev_key d) (bridge_keys b)"
proof -
  have "bridge_keys (bridge_insert b d) = set (map bus_key (first_bus (bridge_insert b d)))"
    by (simp add: bridge_keys_def)
  also have "\<dots> = insert (dev_key d) (bridge_keys b)"
    unfolding bridge_insert_keys by (auto simp: bridge_keys_def)
  finally show ?thesis .
qed

lemma bridge_insert_distinct:
  "distinct (map bus_key (first_bus b)) \<Longrightarrow> distinct (map bus_key (first_bus (bridge_insert b d)))"
  unfolding bridge_insert_keys by (auto simp: bridge_keys_def)

lemma devs_at_absent: "k \<notin> bridge_keys b \<Longrightarrow> devs_at b k = []"
  by (auto simp: devs_at_def bridge_keys_def filter_empty_conv)

lemma bridge_insert_devs_at:
  assumes "distinct (map bus_key (first_bus b))"
  shows "devs_at (bridge_insert b d) k = (if k = dev_key d then devs_at b k @ [d] else devs_at b k)"
proof (cases "find_bus (first_bus b) (fst (dev_key d)) (snd (dev_key d))")
  case None
  then have "dev_key d \<notin> bridge_keys b"
    using find_bus_None_iff [of "first_bus b" "fst (dev_key d)" "snd (dev_key d)"]
    by (simp add: bridge_keys_def)
  then have a: "devs_at b (dev_key d) = []" by (rule devs_at_absent)
  have e: "first_bus (bridge_insert b d) =
      \<lparr>bus_domain = fst (dev_key d), number = snd (dev_key d), devs = [d]\<rparr> # first_bus b"
    using None by (simp add: bridge_insert_def)
  have "devs_at (bridge_insert b d) k = (if k = dev_key d then d # devs_at b k else devs_at b k)"
    unfolding devs_at_def e by (auto simp: bus_key_def)
  then show ?thesis using a by auto
next
  case (Some j)
  from find_bus_Some [OF Some] have j: "j < length (first_bus b)" "bus_key (first_bus b ! j) = dev_key d"
    by simp_all
  show ?thesis
    using devs_at_update [OF assms j, of k d] Some
    by (simp add: bridge_insert_def devs_at_def)
qed

lemma bridge_insert_mset:
  "mset (bridge_devs (bridge_insert b d)) = add_mset d (mset (bridge_devs b))"
proof (cases "find_bus (first_bus b) (fst (dev_key d)) (snd (dev_key d))")
  case None
  then show ?thesis by (simp add: bridge_insert_def bridge_devs_def)
next
  case (Some j)
  from find_bus_Some [OF Some] have j: "j < length (first_bus b)" by simp
  let ?us = "first_bus b"
  have split: "?us = take j ?us @ ?us ! j # drop (Suc j) ?us"
    using j by (rule id_take_nth_drop)
  have "mset (concat (map devs (?us[j := (?us ! j)\<lparr>devs := devs (?us ! j) @ [d]\<rparr>]))) =
      mset (concat (map devs (take j ?us))) + mset (devs (?us ! j) @ [d]) + mset (concat (map devs (drop (Suc j) ?us)))"
    using j by (simp add: upd_conv_take_nth_drop)
  also have "\<dots> = add_mset d (mset (concat (map devs (take j ?us @ ?us ! j # drop (Suc j) ?us))))"
    by simp
  finally show ?thesis using Some split by (simp add: bridge_insert_def bridge_devs_def)
qed

lemma flat_place: "flat_tree t \<Longrightarrow> r < length t \<Longrightarrow> flat_tree (place t r d)"
  by (auto simp: flat_tree_def place_def nth_list_update)

lemma place_nth:
  "i < length t \<Longrightarrow> place t r d ! i = (if i = r then bridge_insert (t ! r) d else t ! i)"
  by (simp add: place_def nth_list_update)

lemma route_place:
  assumes "flat_tree t" and r: "r = route t (dev_key d)"
  shows "route (place t r d) k = route t k"
proof -
  have rl: "r < length t" using assms route_less by simp
  have t0: "t \<noteq> []" using assms by (simp add: flat_tree_def)
  have l0: "0 < length t" using t0 by simp
  have ch: "child (place t r d ! 0) = child (t ! 0)"
    by (simp add: place_nth [OF l0])
  have fc: "find_child (place t r d) cs (fst k) (snd k) = find_child t cs (fst k) (snd k)" for cs
  proof (rule find_child_cong)
    fix c
    show "br_domain (place t r d ! c) = br_domain (t ! c) \<and>
      secondary (place t r d ! c) = secondary (t ! c) \<and>
      subordinate (place t r d ! c) = subordinate (t ! c)"
      using rl by (cases "c = r") (simp_all add: place_def)
  qed
  have keys: "bridge_keys (place t r d ! 0) =
      (if r = 0 then insert (dev_key d) (bridge_keys (t ! 0)) else bridge_keys (t ! 0))"
    by (simp add: place_nth [OF l0] bridge_insert_keys_set)
  show ?thesis
  proof (cases "r = 0 \<and> k = dev_key d")
    case True
    then have "route t k = 0" using r by simp
    moreover have "route (place t r d) k = 0"
      using True keys by (simp add: route_def bridge_keys_def [symmetric])
    ultimately show ?thesis by simp
  next
    case False
    then have "k \<in> bridge_keys (place t r d ! 0) \<longleftrightarrow> k \<in> bridge_keys (t ! 0)"
      using keys by auto
    then show ?thesis
      unfolding route_def bridge_keys_def [symmetric] ch fc by simp
  qed
qed

lemma tree_inv_place:
  assumes inv: "tree_inv seen t" and r: "r = route t (dev_key d)"
  shows "tree_inv (seen @ [d]) (place t r d)"
proof -
  have flat: "flat_tree t" using inv by (simp add: tree_inv_def)
  have rl: "r < length t" using flat r route_less by simp
  have dist: "distinct (map bus_key (first_bus (t ! i)))" if "i < length t" for i
    using inv that by (simp add: tree_inv_def)
  have at: "devs_at (t ! i) k = (if route t k = i then filter (\<lambda>d. dev_key d = k) seen else [])"
    if "i < length t" for i k
    using inv that unfolding tree_inv_def by blast
  have len: "length (place t r d) = length t" by (simp add: place_def)
  have d': "distinct (map bus_key (first_bus (place t r d ! i)))" if "i < length t" for i
    using dist [OF that] bridge_insert_distinct [OF dist [OF rl]]
    by (simp add: place_nth [OF that])
  have at': "devs_at (place t r d ! i) k =
      (if route (place t r d) k = i then filter (\<lambda>d. dev_key d = k) (seen @ [d]) else [])"
    if i: "i < length t" for i k
  proof (cases "i = r")
    case True
    have "devs_at (place t r d ! i) k = devs_at (bridge_insert (t ! r) d) k"
      using True rl by (simp add: place_def)
    also have "\<dots> = (if k = dev_key d then devs_at (t ! r) k @ [d] else devs_at (t ! r) k)"
      using bridge_insert_devs_at [OF dist [OF rl]] by simp
    finally show ?thesis
      using True at [OF rl, of k] r route_place [OF flat r, of k] by auto
  next
    case False
    have "devs_at (place t r d ! i) k = devs_at (t ! i) k"
      using False i by (simp add: place_def)
    then show ?thesis
      using False at [OF i, of k] r route_place [OF flat r, of k] by auto
  qed
  show ?thesis
    unfolding tree_inv_def len using flat_place [OF flat rl] d' at' by blast
qed

lemma insert_devs_inv:
  "tree_inv seen t \<Longrightarrow> 2 \<le> n \<Longrightarrow>
   \<exists>t'. insert_devs n t ds = Some t' \<and> tree_inv (seen @ ds) t' \<and> length t' = length t \<and>
        mset (concat (map bridge_devs t')) = mset (concat (map bridge_devs t)) + mset ds"
proof (induction ds arbitrary: seen t)
  case Nil
  then show ?case by simp
next
  case (Cons d ds)
  obtain m where n: "n = Suc (Suc m)"
    using Cons.prems(2) by (metis One_nat_def Suc_1 Suc_le_D Suc_le_mono)
  have flat: "flat_tree t" using Cons.prems(1) by (simp add: tree_inv_def)
  let ?r = "route t (dev_key d)"
  let ?t1 = "place t ?r d"
  have rl: "?r < length t" using flat by (rule route_less)
  have ins: "insert_dev n t d 0 = Some ?t1"
    unfolding n using flat by (rule insert_dev_flat)
  have inv1: "tree_inv (seen @ [d]) ?t1"
    using Cons.prems(1) by (rule tree_inv_place) simp
  have ms: "mset (concat (map bridge_devs ?t1)) = add_mset d (mset (concat (map bridge_devs t)))"
  proof -
    have split: "t = take ?r t @ t ! ?r # drop (Suc ?r) t"
      using rl by (rule id_take_nth_drop)
    have "mset (concat (map bridge_devs ?t1)) =
        mset (concat (map bridge_devs (take ?r t))) + mset (bridge_devs (bridge_insert (t ! ?r) d)) +
        mset (concat (map bridge_devs (drop (Suc ?r) t)))"
      using rl by (simp add: place_def upd_conv_take_nth_drop)
    also have "\<dots> = add_mset d (mset (concat (map bridge_devs (take ?r t @ t ! ?r # drop (Suc ?r) t))))"
      by (simp add: bridge_insert_mset)
    finally show ?thesis using split by simp
  qed
  from Cons.IH [OF inv1 Cons.prems(2)] obtain t' where
    t': "insert_devs n ?t1 ds = Some t'" "tree_inv ((seen @ [d]) @ ds) t'" "length t' = length ?t1"
      "mset (concat (map bridge_devs t')) = mset (concat (map bridge_devs ?t1)) + mset ds"
    by blast
  show ?case
    using ins t' ms by (simp add: place_def)
qed

text \<open>The depth does not matter from 2 on: the descent of \<open>insert_dev\<close> has at most one step.\<close>

lemma insert_devs_any_depth:
  "tree_inv seen t \<Longrightarrow> 2 \<le> n \<Longrightarrow> insert_devs n t ds = insert_devs 2 t ds"
proof (induction ds arbitrary: seen t)
  case Nil
  then show ?case by simp
next
  case (Cons d ds)
  obtain m where n: "n = Suc (Suc m)"
    using Cons.prems(2) by (metis One_nat_def Suc_1 Suc_le_D Suc_le_mono)
  have flat: "flat_tree t" using Cons.prems(1) by (simp add: tree_inv_def)
  let ?t1 = "place t (route t (dev_key d)) d"
  have a: "insert_dev n t d 0 = Some ?t1"
    unfolding n using flat by (rule insert_dev_flat)
  have b: "insert_dev 2 t d 0 = Some ?t1"
    using insert_dev_flat [OF flat, of 0 d] by (simp add: numeral_2_eq_2)
  have inv1: "tree_inv (seen @ [d]) ?t1"
    using Cons.prems(1) by (rule tree_inv_place) simp
  show ?case using a b Cons.IH [OF inv1 Cons.prems(2)] by simp
qed

lemma build_bridges_fresh:
  "b \<in> set (build_bridges L ds) \<Longrightarrow> child b = [] \<and> first_bus b = []"
  by (induction ds) (auto simp: new_bridge_def Let_def split: if_splits)

lemma add_secondary_fresh:
  "first_bus b = [] \<Longrightarrow>
   add_secondary b = b\<lparr>first_bus := [\<lparr>bus_domain = br_domain b, number = secondary b, devs = []\<rparr>]\<rparr>"
  by (simp add: add_secondary_def new_bus_def)

lemma initial_tree:
  fixes L ds
  defines "t0 \<equiv> map add_secondary (create_tree (bridge_chain L ds))"
  shows "tree_inv [] t0 \<and> concat (map bridge_devs t0) = []"
proof -
  let ?chain = "bridge_chain L ds"
  let ?n = "length ?chain"
  have h: "hosted ?chain" by (rule hosted_chain)
  have c0: "child (?chain ! 0) = []" by (simp add: bridge_chain_def host_bridge_def)
  have ct: "create_tree ?chain = ?chain[0 := (?chain ! 0)\<lparr>child := rev [1 ..< ?n]\<rparr>]"
    using h c0 by (rule create_tree_flat)
  have n0: "0 < ?n" by (simp add: bridge_chain_def)
  have len: "length t0 = ?n" by (simp add: t0_def ct)
  have fresh: "first_bus (?chain ! i) = []" "0 < i \<Longrightarrow> child (?chain ! i) = []" if "i < ?n" for i
  proof -
    show "first_bus (?chain ! i) = []"
      using that build_bridges_fresh [of "build_bridges L ds ! (i - 1)" L ds]
      by (cases i) (simp_all add: bridge_chain_def host_bridge_def)
    show "child (?chain ! i) = []" if "0 < i"
      using that \<open>i < ?n\<close> build_bridges_fresh [of "build_bridges L ds ! (i - 1)" L ds]
      by (cases i) (simp_all add: bridge_chain_def)
  qed
  have nth: "t0 ! i = (create_tree ?chain ! i)\<lparr>first_bus :=
      [\<lparr>bus_domain = br_domain (create_tree ?chain ! i), number = secondary (create_tree ?chain ! i), devs = []\<rparr>]\<rparr>"
    if "i < ?n" for i
  proof -
    have "first_bus (create_tree ?chain ! i) = []"
      using that fresh(1) [OF that] by (cases "i = 0") (simp_all add: ct)
    then show ?thesis using that by (simp add: t0_def ct add_secondary_fresh)
  qed
  have flat: "flat_tree t0"
    unfolding flat_tree_def len
  proof (intro conjI allI impI)
    show "t0 \<noteq> []" using len n0 by auto
    show "child (t0 ! 0) = rev [1 ..< ?n]" using n0 by (simp add: nth ct)
    show "child (t0 ! c) = []" if "0 < c \<and> c < ?n" for c
      using that fresh(2) [of c] by (simp add: nth ct)
  qed
  have devs0: "devs u = []" if "i < ?n" "u \<in> set (first_bus (t0 ! i))" for i u
    using that by (simp add: nth)
  have dist: "distinct (map bus_key (first_bus (t0 ! i)))" if "i < ?n" for i
    using that by (simp add: nth)
  have at: "devs_at (t0 ! i) k = []" if "i < ?n" for i k
    using devs0 [OF that] by (simp add: devs_at_def)
  have bd: "bridge_devs b = []" if mem: "b \<in> set t0" for b
  proof -
    obtain i where "i < length t0" "b = t0 ! i" using mem unfolding in_set_conv_nth by blast
    then show ?thesis using devs0 [of i] len by (simp add: bridge_devs_def)
  qed
  have inv: "tree_inv [] t0"
    unfolding tree_inv_def len
  proof (intro conjI allI impI)
    show "flat_tree t0" by (rule flat)
    show "distinct (map bus_key (first_bus (t0 ! i)))" if "i < ?n" for i
      using that by (rule dist)
    show "devs_at (t0 ! i) k = (if route t0 k = i then filter (\<lambda>d. dev_key d = k) [] else [])"
      if "i < ?n" for i k
      using at [OF that] by simp
  qed
  have "concat (map bridge_devs t0) = []"
    using bd by simp
  with inv show ?thesis by simp
qed

lemma grow_tree_any_depth: "2 \<le> n \<Longrightarrow> grow_tree n L ds = grow_tree 2 L ds"
  unfolding grow_tree_def using initial_tree [of L ds] insert_devs_any_depth by blast

lemma those_map_Some:
  "(\<And>c. c \<in> set cs \<Longrightarrow> f c = Some (g c)) \<Longrightarrow> those (map f cs) = Some (map g cs)"
  by (induction cs) simp_all

lemma tree_buses_flat:
  assumes "flat_tree t"
  shows "tree_buses (Suc (Suc n)) t 0 =
     Some (first_bus (t ! 0) @ concat (map (\<lambda>c. first_bus (t ! c)) (rev [1 ..< length t])))"
proof -
  have leaf: "tree_buses (Suc n) t c = Some (first_bus (t ! c))" if "c \<in> set (child (t ! 0))" for c
  proof -
    have "child (t ! c) = []" using assms that by (auto simp: flat_tree_def)
    then show ?thesis by simp
  qed
  have "those (map (tree_buses (Suc n) t) (child (t ! 0))) = Some (map (\<lambda>c. first_bus (t ! c)) (child (t ! 0)))"
    using leaf by (rule those_map_Some)
  then show ?thesis using assms by (simp add: flat_tree_def)
qed

lemma nth_from_1: "xs \<noteq> [] \<Longrightarrow> map ((!) xs) [1 ..< length xs] = tl xs"
proof (cases xs)
  case Nil
  assume "xs \<noteq> []"
  with Nil show ?thesis by simp
next
  case (Cons a list)
  have "[1 ..< length xs] = map Suc [0 ..< length list]"
    using Cons by (simp add: map_Suc_upt del: upt_Suc)
  then have "map ((!) xs) [1 ..< length xs] = map ((!) list) [0 ..< length list]"
    using Cons by simp
  then show ?thesis using Cons by (simp add: map_nth)
qed

lemma mset_concat_rev: "mset (concat (map f (rev xs))) = mset (concat (map f xs))"
  by (induction xs) simp_all

lemma preorder_devs:
  assumes "t \<noteq> []"
  shows "mset (concat (map devs (first_bus (t ! 0) @ concat (map (\<lambda>c. first_bus (t ! c)) (rev [1 ..< length t]))))) =
     mset (concat (map bridge_devs t))"
proof -
  have "concat (map devs (concat (map (\<lambda>c. first_bus (t ! c)) cs))) = concat (map (\<lambda>c. bridge_devs (t ! c)) cs)" for cs
    by (induction cs) (simp_all add: bridge_devs_def)
  then have "mset (concat (map devs (concat (map (\<lambda>c. first_bus (t ! c)) (rev [1 ..< length t]))))) =
      mset (concat (map (\<lambda>c. bridge_devs (t ! c)) [1 ..< length t]))"
    by (simp add: mset_concat_rev)
  also have "\<dots> = mset (concat (map bridge_devs (map ((!) t) [1 ..< length t])))"
    by (simp add: comp_def)
  also have "\<dots> = mset (concat (map bridge_devs (tl t)))"
    by (simp only: nth_from_1 [OF assms])
  finally show ?thesis using assms by (cases t) (simp_all add: bridge_devs_def)
qed

lemma distinct_concat_unique:
  "distinct (concat xss) \<Longrightarrow> x \<in> set (concat xss) \<Longrightarrow> \<exists>!j. j < length xss \<and> x \<in> set (xss ! j)"
proof (induction xss)
  case Nil
  then show ?case by simp
next
  case (Cons xs xss)
  show ?case
  proof (cases "x \<in> set xs")
    case True
    then have no: "x \<notin> set (concat xss)" using Cons.prems(1) by auto
    have "j = 0" if "j < length (xs # xss)" "x \<in> set ((xs # xss) ! j)" for j
    proof (cases j)
      case (Suc j')
      then have "x \<in> set (concat xss)" using that nth_mem [of j' xss] by auto
      then show ?thesis using no by simp
    qed simp
    then show ?thesis using True by (intro ex1I [of _ 0]) auto
  next
    case False
    then have "x \<in> set (concat xss)" using Cons.prems(2) by simp
    moreover have "distinct (concat xss)" using Cons.prems(1) by simp
    ultimately obtain j where j: "j < length xss" "x \<in> set (xss ! j)"
      and u: "\<And>j'. j' < length xss \<and> x \<in> set (xss ! j') \<Longrightarrow> j' = j"
      using Cons.IH by blast
    show ?thesis
    proof (intro ex1I [of _ "Suc j"])
      show "Suc j < length (xs # xss) \<and> x \<in> set ((xs # xss) ! Suc j)" using j by simp
      fix j' assume a: "j' < length (xs # xss) \<and> x \<in> set ((xs # xss) ! j')"
      show "j' = Suc j"
      proof (cases j')
        case 0
        then show ?thesis using a False by simp
      next
        case (Suc i)
        then show ?thesis using a u [of i] by simp
      qed
    qed
  qed
qed

lemma devs_at_member:
  assumes "distinct (map bus_key us)" and "u \<in> set us"
  shows "concat (map devs (filter (\<lambda>v. bus_key v = bus_key u) us)) = devs u"
  using assms
proof (induction us)
  case Nil
  then show ?case by simp
next
  case (Cons a us)
  show ?case
  proof (cases "u = a")
    case True
    have "filter (\<lambda>v. bus_key v = bus_key a) us = []"
      using Cons.prems(1) by (auto simp: filter_empty_conv image_iff)
    then show ?thesis using True by simp
  next
    case False
    then have "u \<in> set us" using Cons.prems(2) by simp
    then have "bus_key a \<noteq> bus_key u" using Cons.prems(1) by (auto simp: image_iff)
    then show ?thesis using Cons \<open>u \<in> set us\<close> by simp
  qed
qed

lemma once_in_lists:
  assumes "distinct (concat (map f xs))" and "x \<in> set (concat (map f xs))"
  shows "\<exists>!j. j < length xs \<and> x \<in> set (f (xs ! j))"
proof -
  have "(j < length (map f xs) \<and> x \<in> set (map f xs ! j)) = (j < length xs \<and> x \<in> set (f (xs ! j)))" for j
    by auto
  then show ?thesis using distinct_concat_unique [OF assms] by simp
qed

text \<open>
  C1. For every registry sorted by (domain, bus, device, function) the passive build
  returns a tree (a depth of 2 suffices) in which every device appears in exactly one
  bus; the device lists of the buses, concatenated in pre-order of the tree, are a
  permutation of the registry; and every bus is empty or holds exactly the devices
  of the registry with its domain and bus number, in the order of the registry.
\<close>

theorem grow_tree_partitions_registry:
  assumes sorted: "sorted_wrt dev_less registry" and n: "2 \<le> n"
  shows "\<exists>tree buses. grow_tree n L registry = Some tree \<and> tree_buses n tree 0 = Some buses \<and>
      mset (concat (map devs buses)) = mset registry \<and>
      (\<forall>d \<in> set registry. \<exists>!j. j < length buses \<and> d \<in> set (devs (buses ! j))) \<and>
      (\<forall>u \<in> set buses. devs u = [] \<or> devs u = filter (on_bus u) registry)"
proof -
  let ?t0 = "map add_secondary (create_tree (bridge_chain L registry))"
  obtain m where m: "n = Suc (Suc m)"
    using n by (metis One_nat_def Suc_1 Suc_le_D Suc_le_mono)
  have i0: "tree_inv [] ?t0" and e0: "concat (map bridge_devs ?t0) = []"
    using initial_tree [of L registry] by simp_all
  from insert_devs_inv [OF i0 n, of registry] obtain tree where
    g: "insert_devs n ?t0 registry = Some tree" and inv: "tree_inv registry tree"
    and ms: "mset (concat (map bridge_devs tree)) = mset registry"
    using e0 by auto
  have flat: "flat_tree tree" using inv by (simp add: tree_inv_def)
  have ne: "tree \<noteq> []" using flat by (simp add: flat_tree_def)
  define buses where
    "buses = first_bus (tree ! 0) @ concat (map (\<lambda>c. first_bus (tree ! c)) (rev [1 ..< length tree]))"
  have tb: "tree_buses n tree 0 = Some buses"
    unfolding m buses_def using flat by (rule tree_buses_flat)
  have perm: "mset (concat (map devs buses)) = mset registry"
    unfolding buses_def using preorder_devs [OF ne] ms by simp
  have "distinct registry" using sorted by (rule sorted_registry_distinct)
  then have dist: "distinct (concat (map devs buses))"
    using perm by (metis mset_eq_imp_distinct_iff)
  have once: "\<exists>!j. j < length buses \<and> d \<in> set (devs (buses ! j))" if "d \<in> set registry" for d
  proof -
    have "d \<in> set (concat (map devs buses))"
      using that perm by (metis mset_eq_setD)
    with dist show ?thesis by (rule once_in_lists)
  qed
  have order: "devs u = [] \<or> devs u = filter (on_bus u) registry" if "u \<in> set buses" for u
  proof -
    have l0: "0 < length tree" using ne by simp
    have "u \<in> set (first_bus (tree ! 0)) \<or>
        (\<exists>c \<in> set [1 ..< length tree]. u \<in> set (first_bus (tree ! c)))"
      using that unfolding buses_def by (auto simp del: upt_Suc)
    then have "\<exists>i < length tree. u \<in> set (first_bus (tree ! i))"
    proof
      assume "u \<in> set (first_bus (tree ! 0))"
      with l0 show ?thesis by blast
    next
      assume "\<exists>c \<in> set [1 ..< length tree]. u \<in> set (first_bus (tree ! c))"
      then show ?thesis by (auto simp del: upt_Suc)
    qed
    then obtain i where i: "i < length tree" "u \<in> set (first_bus (tree ! i))"
      by blast
    have "distinct (map bus_key (first_bus (tree ! i)))"
      using inv i(1) by (simp add: tree_inv_def)
    then have "devs u = devs_at (tree ! i) (bus_key u)"
      using devs_at_member [OF _ i(2)] by (simp add: devs_at_def)
    also have "\<dots> = (if route tree (bus_key u) = i then filter (\<lambda>d. dev_key d = bus_key u) registry else [])"
      using inv i(1) unfolding tree_inv_def by blast
    finally show ?thesis
      by (auto simp: on_bus_def dev_key_def bus_key_def cong: filter_cong)
  qed
  show ?thesis
    using g tb perm once order unfolding grow_tree_def by blast
qed

theorem grow_tree_partitions_registry_witness:
  "\<exists>tree buses. grow_tree 2 pci_header scenario = Some tree \<and> tree_buses 2 tree 0 = Some buses \<and>
      mset (concat (map devs buses)) = mset scenario \<and>
      (\<forall>d \<in> set scenario. \<exists>!j. j < length buses \<and> d \<in> set (devs (buses ! j))) \<and>
      (\<forall>u \<in> set buses. devs u = [] \<or> devs u = filter (on_bus u) scenario)"
proof -
  have "sorted_wrt dev_less scenario"
    by (simp add: scenario_def dev_less_def bridge_dev_def plain_dev_def)
  from grow_tree_partitions_registry [OF this, of 2 pci_header] show ?thesis by simp
qed

lemma scenario_tree:
  "map_option (map (\<lambda>u. (number u, map (\<lambda>d. (p_bus (dev d), p_dev (dev d), p_func (dev d))) (devs u))))
     (case grow_tree 2 pci_header scenario of None \<Rightarrow> None | Some t \<Rightarrow> tree_buses 2 t 0) =
   Some [(0, [(0, 1, 0), (0, 3, 0)]), (1, [(1, 0, 0)])]"
  by code_simp

lemma grown_refl: "grown t t"
  by (simp add: grown_def)

lemma grown_trans: "grown t t1 \<Longrightarrow> grown t1 t2 \<Longrightarrow> grown t t2"
  unfolding grown_def by (auto; blast)

lemma numbers_bridge_insert: "numbers (bridge_insert b d) = numbers b"
  by (simp add: numbers_def bridge_insert_def split: option.split)

lemma grown_place:
  assumes "r < length t"
  shows "grown t (place t r d)"
  unfolding grown_def
proof (intro conjI allI impI)
  show "length (place t r d) = length t" by (simp add: place_def)
  fix i assume i: "i < length t"
  show "numbers (place t r d ! i) = numbers (t ! i)"
    by (simp add: place_nth [OF i] numbers_bridge_insert)
  show "bridge_keys (t ! i) \<subseteq> bridge_keys (place t r d ! i)"
    by (auto simp: place_nth [OF i] bridge_insert_keys_set)
qed

lemma create_tree_chain:
  "create_tree (bridge_chain L ds) =
     (bridge_chain L ds)[0 := host_bridge\<lparr>child := rev [1 ..< length (bridge_chain L ds)]\<rparr>]"
  using create_tree_flat [OF hosted_chain, of L ds] by (simp add: bridge_chain_def host_bridge_def)

lemma insert_devs_grown:
  "tree_inv seen t \<Longrightarrow> 2 \<le> n \<Longrightarrow> insert_devs n t ds = Some t' \<Longrightarrow> grown t t'"
proof (induction ds arbitrary: seen t)
  case Nil
  then show ?case by (simp add: grown_refl)
next
  case (Cons d ds)
  obtain m where n: "n = Suc (Suc m)"
    using Cons.prems(2) by (metis One_nat_def Suc_1 Suc_le_D Suc_le_mono)
  have flat: "flat_tree t" using Cons.prems(1) by (simp add: tree_inv_def)
  let ?r = "route t (dev_key d)"
  let ?t1 = "place t ?r d"
  have rl: "?r < length t" using flat by (rule route_less)
  have ins: "insert_dev n t d 0 = Some ?t1"
    unfolding n using flat by (rule insert_dev_flat)
  have inv1: "tree_inv (seen @ [d]) ?t1"
    using Cons.prems(1) by (rule tree_inv_place) simp
  have "insert_devs n ?t1 ds = Some t'" using Cons.prems(3) ins by simp
  from Cons.IH [OF inv1 Cons.prems(2) this] grown_place [OF rl, of d]
  show ?case by (rule grown_trans [rotated])
qed

lemma new_bridge_in_chain:
  "d \<in> set ds \<Longrightarrow> is_bridge L d \<Longrightarrow> new_bridge L d \<in> set (build_bridges L ds)"
  by (induction ds) auto

lemma add_secondary_key: "(br_domain b, secondary b) \<in> bridge_keys (add_secondary b)"
proof (cases "find_bus (first_bus b) (br_domain b) (secondary b)")
  case None
  then show ?thesis by (simp add: add_secondary_def new_bus_def bridge_keys_def bus_key_def)
next
  case (Some k)
  then show ?thesis
    using find_bus_None_iff [of "first_bus b" "br_domain b" "secondary b"]
    by (simp add: add_secondary_def bridge_keys_def)
qed

lemma numbers_add_secondary: "numbers (add_secondary b) = numbers b"
  by (simp add: numbers_def add_secondary_def new_bus_def split: option.split)

lemma builder_keeps_bridge:
  assumes n: "2 \<le> n" and d: "d \<in> set registry" and b: "is_bridge L d"
  shows "\<exists>tree br. grow_tree n L registry = Some tree \<and> br \<in> set tree \<and> br_dev br = Some d \<and>
      secondary br = secondary (new_bridge L d) \<and> subordinate br = subordinate (new_bridge L d) \<and>
      (br_domain br, secondary br) \<in> bridge_keys br"
proof -
  let ?chain = "bridge_chain L registry"
  let ?t0 = "map add_secondary (create_tree ?chain)"
  have i0: "tree_inv [] ?t0" using initial_tree [of L registry] by simp
  from insert_devs_inv [OF i0 n, of registry] obtain tree where
    g: "insert_devs n ?t0 registry = Some tree" by auto
  have gr: "grown ?t0 tree" using i0 n g by (rule insert_devs_grown)
  have "new_bridge L d \<in> set (build_bridges L registry)" using d b by (rule new_bridge_in_chain)
  then obtain j where j: "j < length (build_bridges L registry)" "build_bridges L registry ! j = new_bridge L d"
    unfolding in_set_conv_nth by blast
  let ?i = "Suc j"
  have il: "?i < length ?chain" using j by (simp add: bridge_chain_def)
  have ci: "?chain ! ?i = new_bridge L d" using j by (simp add: bridge_chain_def)
  have len0: "length ?t0 = length ?chain" by (simp add: create_tree_chain)
  have ct: "create_tree ?chain ! ?i = ?chain ! ?i"
    by (simp add: create_tree_chain)
  have t0i: "?t0 ! ?i = add_secondary (new_bridge L d)"
    using il len0 ct ci by simp
  have nb: "br_dev (new_bridge L d) = Some d \<and> br_domain (new_bridge L d) = p_domain (dev d)"
    by (simp add: new_bridge_def Let_def)
  have li: "?i < length ?t0" using il len0 by simp
  have g1: "numbers (tree ! ?i) = numbers (?t0 ! ?i)" and g2: "bridge_keys (?t0 ! ?i) \<subseteq> bridge_keys (tree ! ?i)"
    and g3: "length tree = length ?t0"
    using gr li unfolding grown_def by blast+
  have num: "numbers (tree ! ?i) = numbers (new_bridge L d)"
    unfolding g1 t0i by (rule numbers_add_secondary)
  have "(br_domain (new_bridge L d), secondary (new_bridge L d)) \<in> bridge_keys (?t0 ! ?i)"
    unfolding t0i by (rule add_secondary_key)
  then have key: "(br_domain (new_bridge L d), secondary (new_bridge L d)) \<in> bridge_keys (tree ! ?i)"
    using g2 by blast
  have mem: "tree ! ?i \<in> set tree" using li g3 by simp
  show ?thesis
    using g mem num key nb unfolding grow_tree_def numbers_def by auto
qed

lemma mapper_clamps:
  assumes "get_conf_byte d ns > get_conf_byte d nl"
  shows "\<exists>c. bi_bridges (bus_info (map_bridge env bus d np ns nl st) bus) = c # bi_bridges (bus_info st bus) \<and>
      bb_first c = get_conf_byte d ns \<and> bb_last c = bb_first c \<and>
      Invalid_bus_range (dev d) \<in> set (diags (map_bridge env bus d np ns nl st))"
  using assms by (simp add: map_bridge_def Let_def)

text \<open>
  Every bridge of the chain becomes a child of the host bridge, whatever ranges the
  bridges report.
\<close>

lemma every_parent_is_host_bridge:
  assumes "0 < b" and "b < length (bridge_chain L first_dev)"
  shows "parent_of (create_tree (bridge_chain L first_dev)) b = Some 0"
    and "child (create_tree (bridge_chain L first_dev) ! b) = []"
proof -
  let ?chain = "bridge_chain L first_dev"
  have n0: "0 < length ?chain" by (simp add: bridge_chain_def)
  have l: "[0 ..< length ?chain] = 0 # [1 ..< length ?chain]"
    using upt_conv_Cons [OF n0] by simp
  have "b \<in> set (rev [1 ..< length ?chain])" using assms by simp
  then show "parent_of (create_tree ?chain) b = Some 0"
    unfolding parent_of_def create_tree_chain
    by (simp only: length_list_update l list.simps find.simps) (simp add: bridge_chain_def)
  have "?chain ! b \<in> set (build_bridges L first_dev)"
    using assms by (cases b) (simp_all add: bridge_chain_def)
  then have "child (?chain ! b) = []" using build_bridges_fresh by blast
  then show "child (create_tree ?chain ! b) = []"
    using assms by (simp add: create_tree_chain)
qed



text \<open>
  C4. The registry holds the bridges A with the range [0, 255], B with the range
  [10, 20] and C with the primary bus 15. The builder makes the host bridge the
  parent of C, not B: the difference \<open>subordinate - primary\<close> of the host bridge is
  \<open>~0 - ~0 = 0\<close>, which no candidate undercuts, so every bridge becomes a child of the
  host bridge.
\<close>

theorem nested_parent_is_host_root:
  "map (\<lambda>b. (primary b, secondary b, subordinate b)) (bridge_chain pci_header nested) =
     [(NOT 0, 0, NOT 0), (0, 0, 255), (0, 10, 20), (15, 16, 16)] \<and>
   find_best (bridge_chain pci_header nested) 3 [0 ..< 4] None = Some 0 \<and>
   parent_of (create_tree (bridge_chain pci_header nested)) 3 = Some 0 \<and>
   map child (create_tree (bridge_chain pci_header nested)) = [[3, 2, 1], [], [], []]"
  by code_simp

text \<open>
  With the offsets of libpci's header.h the two families of macros name the same three
  bytes, so there the numbers read do not depend on the branch taken.
\<close>

lemma new_bridge_pci_header:
  "primary (new_bridge pci_header d) = ucast (get_conf_byte d 0x18) \<and>
   secondary (new_bridge pci_header d) = ucast (get_conf_byte d 0x19) \<and>
   subordinate (new_bridge pci_header d) = ucast (get_conf_byte d 0x1a)"
  by (simp add: new_bridge_def pci_header_def Let_def)


text \<open>
  C8. The passive builder accepts every bridge device of the registry, also one whose
  secondary bus exceeds its subordinate bus: the bridge is in the tree with the two
  numbers as \<open>grow_tree\<close> read them and with a bus for its secondary number. It is
  \<open>map_bridge\<close> of the bus mapping mode that, for \<open>first > last\<close>, records the claim
  with \<open>last = first\<close> and prints the complaint about the invalid bus range.
\<close>

theorem inverted_range_builder_keeps_mapper_clamps:
  "(2 \<le> n \<and> d \<in> set registry \<and> is_bridge L d \<longrightarrow>
      (\<exists>tree br. grow_tree n L registry = Some tree \<and> br \<in> set tree \<and> br_dev br = Some d \<and>
         secondary br = secondary (new_bridge L d) \<and> subordinate br = subordinate (new_bridge L d) \<and>
         (br_domain br, secondary br) \<in> bridge_keys br)) \<and>
   (get_conf_byte d ns > get_conf_byte d nl \<longrightarrow>
      (\<exists>c. bi_bridges (bus_info (map_bridge env bus d np ns nl st) bus) = c # bi_bridges (bus_info st bus) \<and>
         bb_first c = get_conf_byte d ns \<and> bb_last c = bb_first c \<and>
         Invalid_bus_range (dev d) \<in> set (diags (map_bridge env bus d np ns nl st))))"
  using builder_keeps_bridge [of n d registry L] mapper_clamps [of d nl ns env bus np st] by blast

theorem inverted_range_builder_keeps_mapper_clamps_witness:
  "(\<exists>tree br. grow_tree 2 pci_header inverted = Some tree \<and> br \<in> set tree \<and>
      br_dev br = Some (bridge_dev 0 0 1 0 1 0 30 20) \<and> secondary br = 30 \<and> subordinate br = 20 \<and>
      (br_domain br, secondary br) \<in> bridge_keys br) \<and>
   (\<exists>c. bi_bridges (bus_info (map_bridge (bridge_env (bridge_dev 0 0 1 0 1 0 30 20)) 0
             (bridge_dev 0 0 1 0 1 0 30 20) 0x18 0x19 0x1a bzero_state) 0) = [c] \<and>
        bb_first c = 30 \<and> bb_last c = 30 \<and>
        Invalid_bus_range (dev (bridge_dev 0 0 1 0 1 0 30 20)) \<in>
          set (diags (map_bridge (bridge_env (bridge_dev 0 0 1 0 1 0 30 20)) 0
             (bridge_dev 0 0 1 0 1 0 30 20) 0x18 0x19 0x1a bzero_state)))"
proof -
  let ?d = "bridge_dev 0 0 1 0 1 0 30 20"
  have b: "is_bridge pci_header ?d" by code_simp
  have m: "?d \<in> set inverted" by (simp add: inverted_def)
  have n: "secondary (new_bridge pci_header ?d) = 30 \<and> subordinate (new_bridge pci_header ?d) = 20"
    by code_simp
  have g: "get_conf_byte ?d 0x19 = 30 \<and> get_conf_byte ?d 0x1a = 20" by code_simp
  have z: "bi_bridges (bus_info bzero_state 0) = []" by (simp add: bzero_state_def)
  note th = inverted_range_builder_keeps_mapper_clamps
      [of 2 ?d inverted pci_header "0x1a" "0x19" "bridge_env ?d" 0 "0x18" bzero_state]
  have "\<exists>tree br. grow_tree 2 pci_header inverted = Some tree \<and> br \<in> set tree \<and>
      br_dev br = Some ?d \<and> secondary br = 30 \<and> subordinate br = 20 \<and>
      (br_domain br, secondary br) \<in> bridge_keys br"
    using th b m n by simp
  moreover obtain c where
    "bi_bridges (bus_info (map_bridge (bridge_env ?d) 0 ?d 0x18 0x19 0x1a bzero_state) 0) = [c]"
    "bb_first c = 30" "bb_last c = bb_first c"
    "Invalid_bus_range (dev ?d) \<in> set (diags (map_bridge (bridge_env ?d) 0 ?d 0x18 0x19 0x1a bzero_state))"
    using th g z by auto
  ultimately show ?thesis by simp
qed

text \<open>
  The claim as the specification states it fails: for a bridge that reports secondary
  30 and subordinate 20 the passive builder keeps the range 30 to 20.
\<close>

theorem inverted_range_kept_counterexample:
  "map_option (map (\<lambda>b. (secondary b, subordinate b))) (grow_tree 2 pci_header inverted) =
     Some [(0, NOT 0), (30, 20)]"
  by code_simp

end
